theory Spec2Isabelle
  imports Main
begin

section \<open>The request queue of \<open>src/lib/supabase.ts\<close>\<close>

text \<open>
  \<open>RequestQueueManager\<close> runs on the single-threaded event loop of the browser. Its
  methods run to completion between two suspension points, so the model is a state
  machine whose transitions are the synchronous sections of the source:
  a call of \<open>enqueue\<close>, the firing of a request's timeout callback, the continuation of
  \<open>processQueue\<close> after \<open>await request.operation()\<close>, the zero-delay callback that calls
  \<open>processQueue\<close> again, and the passing of time.

  Every call of \<open>enqueue\<close> creates a promise; the calls are numbered, and the closures
  \<open>operation\<close>, \<open>resolve\<close> and \<open>reject\<close> of a request are identified with the number of its
  promise. The id of a request is another thing: the string that the source composes from
  the request type, \<open>Date.now()\<close> and nine base-36 digits of \<open>Math.random()\<close>. The model
  keeps the three parts; two ids are equal when their parts are, and nothing prevents two
  requests from having the same id. Every call of a \<open>resolve\<close> or \<open>reject\<close> callback is
  appended to the log \<open>settled\<close>, and every call of \<open>request.operation()\<close> to the log
  \<open>started\<close>.

  The environment is left free wherever the source does not bind it. \<open>Date.now()\<close> is the
  wall clock and \<open>Math.random()\<close> is arbitrary: the two clock readings and the random digits
  of a submission are parameters of the event. The window's timers run on the time
  \<open>clock\<close>, which only advances; an armed timer may fire at any moment from its due time
  on, in any order with the other events. An awaited operation may return or throw at any
  moment. The constants \<open>MAX_CONCURRENT\<close>, \<open>MAX_QUEUE_SIZE\<close> and \<open>REQUEST_TIMEOUT\<close> are
  parameters; \<open>source_config\<close> holds the values of the source.
\<close>

subsection \<open>Data\<close>

datatype request_type = Like | Unlike | ContentUpdate | CategoryUpdate | BoardUpdate

text \<open>What an operation returns or throws, and what a caller's promise is settled with.\<close>

datatype pg_error = PgError (err_code: string) (err_message: "string option")

datatype thrown = ThrownPg pg_error | ThrownExn string

datatype jsvalue = VNull | VUndefined | VData string

datatype rejection =
    QueueOverflow       \<comment> \<open>\<open>new Error('Queue overflow - request dropped')\<close>\<close>
  | RequestTimeout      \<comment> \<open>\<open>new Error('Request timeout')\<close>\<close>
  | OperationFailure thrown

datatype settlement = Resolved jsvalue | Rejected rejection

text \<open>The id \<open>`${type}_${Date.now()}_${Math.random().toString(36).substr(2, 9)}`\<close>.\<close>

type_synonym request_id = "request_type \<times> int \<times> string"

record QueuedRequest =
  req_id :: request_id
  timestamp :: int
  req_type :: request_type
  promise :: nat          \<comment> \<open>\<open>operation\<close>, \<open>resolve\<close>, \<open>reject\<close>: the closures of this call\<close>
  timeout :: nat          \<comment> \<open>the handle returned by \<open>window.setTimeout\<close>\<close>

text \<open>An armed request timer of the window. Its callback holds the id of the request and
  the \<open>reject\<close> of the promise.\<close>

record timer =
  handle :: nat
  timer_id :: request_id
  timer_promise :: nat
  due :: nat

record config =
  MAX_CONCURRENT :: nat
  MAX_QUEUE_SIZE :: nat
  REQUEST_TIMEOUT :: nat

definition source_config :: config where
  "source_config = \<lparr>MAX_CONCURRENT = 3, MAX_QUEUE_SIZE = 1000, REQUEST_TIMEOUT = 30000\<rparr>"

record scheduler =
  queue :: "QueuedRequest list"
  processing :: int
  timers :: "timer list"
  callbacks :: nat
    \<comment> \<open>the pending \<open>setTimeout(() => this.processQueue(), 0)\<close> callbacks\<close>
  running :: "nat list"
    \<comment> \<open>the promises whose \<open>operation()\<close> is awaited\<close>
  started :: "QueuedRequest list"
  settled :: "(nat \<times> settlement) list"
  next_promise :: nat
  next_handle :: nat
  clock :: nat

definition init :: scheduler where
  "init = \<lparr>queue = [], processing = 0, timers = [], callbacks = 0, running = [],
            started = [], settled = [], next_promise = 0, next_handle = 1, clock = 0\<rparr>"

subsection \<open>Array and timer primitives\<close>

text \<open>\<open>Array.prototype.findIndex\<close>: the first index whose element satisfies the predicate;
  the source's \<open>-1\<close> is \<open>None\<close>.\<close>

fun findIndex :: "('a \<Rightarrow> bool) \<Rightarrow> 'a list \<Rightarrow> nat option" where
  "findIndex P [] = None"
| "findIndex P (x # xs) = (if P x then Some 0 else map_option Suc (findIndex P xs))"

text \<open>\<open>window.clearTimeout(h)\<close> disarms the timer with handle \<open>h\<close>, if there is one.\<close>

definition clearTimeout :: "nat \<Rightarrow> scheduler \<Rightarrow> scheduler" where
  "clearTimeout h s = s\<lparr>timers := filter (\<lambda>t. handle t \<noteq> h) (timers s)\<rparr>"

text \<open>\<open>window.setTimeout\<close> for the timeout callback that closes over \<open>requestId\<close> and the
  \<open>reject\<close> of promise \<open>p\<close>: a fresh, non-zero handle.\<close>

definition setTimeout :: "request_id \<Rightarrow> nat \<Rightarrow> nat \<Rightarrow> scheduler \<Rightarrow> nat \<times> scheduler" where
  "setTimeout requestId p delay s =
     (next_handle s,
      s\<lparr>timers := timers s @
           [\<lparr>handle = next_handle s, timer_id = requestId, timer_promise = p,
             due = clock s + delay\<rparr>],
        next_handle := Suc (next_handle s)\<rparr>)"

definition reject :: "nat \<Rightarrow> rejection \<Rightarrow> scheduler \<Rightarrow> scheduler" where
  "reject p e s = s\<lparr>settled := settled s @ [(p, Rejected e)]\<rparr>"

definition resolve :: "nat \<Rightarrow> jsvalue \<Rightarrow> scheduler \<Rightarrow> scheduler" where
  "resolve p v s = s\<lparr>settled := settled s @ [(p, Resolved v)]\<rparr>"

subsection \<open>The methods of \<open>RequestQueueManager\<close>\<close>

text \<open>\<open>processQueue\<close> up to its \<open>await\<close>: one request at most is taken per call.\<close>

definition processQueue :: "config \<Rightarrow> scheduler \<Rightarrow> scheduler" where
  "processQueue cfg s =
     (if processing s \<ge> int (MAX_CONCURRENT cfg) \<or> length (queue s) = 0 then s
      else case queue s of
        [] \<Rightarrow> s
      | request # rest \<Rightarrow>
          let s1 = s\<lparr>queue := rest, processing := processing s + 1\<rparr>;
              s2 = (if timeout request \<noteq> 0 then clearTimeout (timeout request) s1 else s1)
          in s2\<lparr>started := started s2 @ [request],
                running := running s2 @ [promise request]\<rparr>)"

text \<open>\<open>processQueue\<close> after its \<open>await\<close>: the operation of promise \<open>p\<close> has returned
  (\<open>Inr\<close>) or thrown (\<open>Inl\<close>). The \<open>try\<close>, \<open>catch\<close> and \<open>finally\<close> of the source are one section:
  the promise is settled, the counter decremented and the next \<open>processQueue\<close> scheduled.\<close>

definition complete :: "nat \<Rightarrow> thrown + jsvalue \<Rightarrow> scheduler \<Rightarrow> scheduler" where
  "complete p res s =
     (let s1 = (case res of Inr result \<Rightarrow> resolve p result s
                          | Inl err \<Rightarrow> reject p (OperationFailure err) s)
      in s1\<lparr>processing := processing s1 - 1,
            callbacks := Suc (callbacks s1),
            running := removeAll p (running s1)\<rparr>)"

text \<open>\<open>removeFromQueue\<close> takes the first request in the queue that has the id.\<close>

definition removeFromQueue :: "request_id \<Rightarrow> scheduler \<Rightarrow> scheduler" where
  "removeFromQueue requestId s =
     (case findIndex (\<lambda>req. req_id req = requestId) (queue s) of
        None \<Rightarrow> s
      | Some index \<Rightarrow>
          let removed = queue s ! index;
              s1 = s\<lparr>queue := take index (queue s) @ drop (Suc index) (queue s)\<rparr>
          in if timeout removed \<noteq> 0 then clearTimeout (timeout removed) s1 else s1)"

text \<open>The overflow guard at the head of \<open>enqueue\<close>.\<close>

definition evict :: "config \<Rightarrow> scheduler \<Rightarrow> scheduler" where
  "evict cfg s =
     (if length (queue s) \<ge> MAX_QUEUE_SIZE cfg then
        (case queue s of
           [] \<Rightarrow> s
         | removed # rest \<Rightarrow>
             let s1 = s\<lparr>queue := rest\<rparr>;
                 s2 = (if timeout removed \<noteq> 0 then clearTimeout (timeout removed) s1 else s1)
             in reject (promise removed) QueueOverflow s2)
      else s)"

text \<open>The ordered insertion of \<open>enqueue\<close>: \<open>findIndex\<close> and then \<open>push\<close> or \<open>splice\<close>.\<close>

definition insert_request :: "QueuedRequest \<Rightarrow> QueuedRequest list \<Rightarrow> QueuedRequest list" where
  "insert_request r q =
     (case findIndex (\<lambda>req. timestamp req > timestamp r) q of
        None \<Rightarrow> q @ [r]
      | Some insertIndex \<Rightarrow> take insertIndex q @ r # drop insertIndex q)"

text \<open>The body of \<open>enqueue\<close> between the overflow guard and the call of \<open>processQueue\<close>:
  the id composed, the timestamp read, the timeout armed, the request built and inserted.
  \<open>now\<close> is what \<open>Date.now()\<close> returns inside the id, \<open>digits\<close> what
  \<open>Math.random().toString(36).substr(2, 9)\<close> yields, and \<open>ts\<close> what the second \<open>Date.now()\<close>
  returns. The promise is the one that this call of \<open>enqueue\<close> creates.\<close>

definition arm_and_insert ::
  "config \<Rightarrow> request_type \<Rightarrow> int \<Rightarrow> string \<Rightarrow> int \<Rightarrow> scheduler \<Rightarrow> scheduler" where
  "arm_and_insert cfg ty now digits ts s =
     (let p = next_promise s;
          requestId = (ty, now, digits);
          (h, s1) = setTimeout requestId p (REQUEST_TIMEOUT cfg)
                      (s\<lparr>next_promise := Suc (next_promise s)\<rparr>);
          queuedRequest =
            \<lparr>req_id = requestId, timestamp = ts, req_type = ty, promise = p, timeout = h\<rparr>
      in s1\<lparr>queue := insert_request queuedRequest (queue s1)\<rparr>)"

definition enqueue ::
  "config \<Rightarrow> request_type \<Rightarrow> int \<Rightarrow> string \<Rightarrow> int \<Rightarrow> scheduler \<Rightarrow> scheduler" where
  "enqueue cfg ty now digits ts s =
     processQueue cfg (arm_and_insert cfg ty now digits ts (evict cfg s))"

text \<open>The timeout callback armed by \<open>enqueue\<close>, run for the timer \<open>t\<close>: the window has
  disarmed the timer, which fires once; the callback removes from the queue by the id and
  rejects its own promise.\<close>

definition onTimeout :: "timer \<Rightarrow> scheduler \<Rightarrow> scheduler" where
  "onTimeout t s =
     reject (timer_promise t) RequestTimeout
       (removeFromQueue (timer_id t) (clearTimeout (handle t) s))"

text \<open>\<open>getStatus\<close> returns an object literal, a list of keys and values in the order
  written, together with the scheduler as the call leaves it.\<close>

definition getStatus :: "config \<Rightarrow> scheduler \<Rightarrow> (string \<times> int) list \<times> scheduler" where
  "getStatus cfg s =
     ([(''queueSize'', int (length (queue s))),
       (''processing'', processing s),
       (''maxConcurrent'', int (MAX_CONCURRENT cfg)),
       (''maxQueueSize'', int (MAX_QUEUE_SIZE cfg))], s)"

text \<open>
  \<open>getQueueStatus\<close> calls \<open>getStatus\<close> on the global queue, built with the constants of the
  source.
\<close>

definition getQueueStatus :: "scheduler \<Rightarrow> (string \<times> int) list \<times> scheduler" where
  "getQueueStatus s = getStatus source_config s"

subsection \<open>The event loop\<close>

datatype event =
    Enqueue request_type int string int
      \<comment> \<open>a caller calls \<open>enqueue\<close>: the type, the clock reading inside the id, the random
          digits, the clock reading of the timestamp\<close>
  | Complete nat "thrown + jsvalue" \<comment> \<open>the awaited operation of a promise returns or throws\<close>
  | Timeout nat                  \<comment> \<open>the request timer with this handle fires\<close>
  | Callback                     \<comment> \<open>a zero-delay \<open>processQueue\<close> callback runs\<close>
  | Tick nat                     \<comment> \<open>time passes\<close>

text \<open>An event that cannot happen in a state has no successor: an operation that is not
  awaited cannot return, a timer fires only when armed and due, and a callback runs only
  when one is pending.\<close>

definition step :: "config \<Rightarrow> event \<Rightarrow> scheduler \<Rightarrow> scheduler option" where
  "step cfg e s =
     (case e of
        Enqueue ty now digits ts \<Rightarrow> Some (enqueue cfg ty now digits ts s)
      | Complete p res \<Rightarrow>
          if p \<in> set (running s) then Some (complete p res s) else None
      | Timeout h \<Rightarrow>
          (case find (\<lambda>t. handle t = h) (timers s) of
             None \<Rightarrow> None
           | Some t \<Rightarrow> if due t \<le> clock s then Some (onTimeout t s) else None)
      | Callback \<Rightarrow>
          if callbacks s > 0 then Some (processQueue cfg (s\<lparr>callbacks := callbacks s - 1\<rparr>))
          else None
      | Tick d \<Rightarrow> Some (s\<lparr>clock := clock s + d\<rparr>))"

fun run :: "config \<Rightarrow> scheduler \<Rightarrow> event list \<Rightarrow> scheduler option" where
  "run cfg s [] = Some s"
| "run cfg s (e # es) = (case step cfg e s of None \<Rightarrow> None | Some s' \<Rightarrow> run cfg s' es)"

subsection \<open>The like operation\<close>

text \<open>
  \<open>checkIfLiked\<close> and \<open>_internalLikeContentItem\<close> talk to the backend and do nothing else, so
  they are functions of the backend's replies: the reply to the \<open>user_likes\<close> query
  (\<open>data\<close>, \<open>error\<close>, \<open>count\<close>, or an exception), to the \<open>add_like\<close> call and to the re-read of
  the item. The replies inside the retry loop are indexed by the attempt. Beside its
  result, \<open>_internalLikeContentItem\<close> yields the calls it has made, in order, each with what
  it returned. The delay between two attempts is not modelled.
\<close>

datatype query_reply =
    QueryThrows thrown
  | QueryReply (q_error: "pg_error option") (q_count: "int option") (q_data: "string list option")

datatype rpc_reply = RpcThrows thrown | RpcReply "pg_error option"

datatype fetch_reply = FetchThrows thrown | FetchReply jsvalue "pg_error option"

record backend =
  pre_check :: query_reply
  double_check :: "nat \<Rightarrow> query_reply"
  add_like :: "nat \<Rightarrow> rpc_reply"
  fetch_item :: "nat \<Rightarrow> fetch_reply"

datatype backend_call = CheckCall bool | AddLikeCall rpc_reply | FetchCall fetch_reply

text \<open>Every path of \<open>checkIfLiked\<close> returns; the result type keeps the rejection it never
  makes. The last line of the source is \<open>(count ?? data?.length ?? 0) > 0\<close>.\<close>

definition checkIfLiked :: "query_reply \<Rightarrow> thrown + bool" where
  "checkIfLiked reply =
     (case reply of
        QueryThrows e \<Rightarrow> Inr False
      | QueryReply error count rows \<Rightarrow>
          (case error of
             Some e \<Rightarrow> Inr False
           | None \<Rightarrow>
               Inr ((case count of
                       Some c \<Rightarrow> c
                     | None \<Rightarrow> (case rows of Some d \<Rightarrow> int (length d) | None \<Rightarrow> 0)) > 0)))"

text \<open>\<open>String.prototype.includes\<close>, and the test of the source for a duplicate-key error:
  \<open>error.code === '23505' || error.message?.includes('duplicate')\<close>.\<close>

fun str_includes :: "string \<Rightarrow> string \<Rightarrow> bool" where
  "str_includes [] sub = (sub = [])"
| "str_includes (c # cs) sub = (take (length sub) (c # cs) = sub \<or> str_includes cs sub)"

definition is_duplicate :: "pg_error \<Rightarrow> bool" where
  "is_duplicate error \<longleftrightarrow>
     err_code error = ''23505'' \<or>
     (case err_message error of Some m \<Rightarrow> str_includes m ''duplicate'' | None \<Rightarrow> False)"

definition maxRetries :: nat where "maxRetries = 3"

text \<open>The body of the \<open>try\<close> inside the \<open>while\<close> loop, for attempt \<open>n\<close>: \<open>Inr\<close> is a
  \<open>return\<close>, \<open>Inl\<close> a \<open>throw\<close> that the \<open>catch\<close> of the loop receives.\<close>

definition attempt :: "backend \<Rightarrow> nat \<Rightarrow> (thrown + jsvalue) \<times> backend_call list" where
  "attempt b n =
     (case checkIfLiked (double_check b n) of
        Inl e \<Rightarrow> (Inl e, [])
      | Inr doubleCheck \<Rightarrow>
          if doubleCheck then (Inr VNull, [CheckCall True])
          else
            (case add_like b n of
               RpcThrows e \<Rightarrow> (Inl e, [CheckCall False, AddLikeCall (RpcThrows e)])
             | RpcReply (Some error) \<Rightarrow>
                 if is_duplicate error
                 then (Inr VNull, [CheckCall False, AddLikeCall (RpcReply (Some error))])
                 else (Inl (ThrownPg error), [CheckCall False, AddLikeCall (RpcReply (Some error))])
             | RpcReply None \<Rightarrow>
                 (case fetch_item b n of
                    FetchThrows e \<Rightarrow>
                      (Inl e, [CheckCall False, AddLikeCall (RpcReply None), FetchCall (FetchThrows e)])
                  | FetchReply updatedItem (Some fetchError) \<Rightarrow>
                      (Inl (ThrownPg fetchError),
                       [CheckCall False, AddLikeCall (RpcReply None),
                        FetchCall (FetchReply updatedItem (Some fetchError))])
                  | FetchReply updatedItem None \<Rightarrow>
                      (Inr updatedItem,
                       [CheckCall False, AddLikeCall (RpcReply None),
                        FetchCall (FetchReply updatedItem None)]))))"

text \<open>The \<open>while\<close> loop with its \<open>catch\<close>: the error of the last attempt is thrown again,
  an earlier one leads to the next attempt.\<close>

function like_loop :: "backend \<Rightarrow> nat \<Rightarrow> (thrown + jsvalue) \<times> backend_call list" where
  "like_loop b retryCount =
     (if retryCount < maxRetries then
        (case attempt b retryCount of
           (Inr v, calls) \<Rightarrow> (Inr v, calls)
         | (Inl error, calls) \<Rightarrow>
             if Suc retryCount \<ge> maxRetries then (Inl error, calls)
             else (case like_loop b (Suc retryCount) of (res, calls') \<Rightarrow> (res, calls @ calls')))
      else (Inr VUndefined, []))"
  by pat_completeness auto
termination
  by (relation "measure (\<lambda>(b, retryCount). maxRetries - retryCount)") auto

declare like_loop.simps [simp del]

definition internalLikeContentItem :: "backend \<Rightarrow> (thrown + jsvalue) \<times> backend_call list" where
  "internalLikeContentItem b =
     (case checkIfLiked (pre_check b) of
        Inl e \<Rightarrow> (Inl e, [])
      | Inr alreadyLiked \<Rightarrow>
          if alreadyLiked then (Inr VNull, [CheckCall True])
          else (case like_loop b 0 of (res, calls) \<Rightarrow> (res, CheckCall False # calls)))"

text \<open>\<open>likeContentItem\<close> submits the operation to the global queue; what the operation returns
  or throws reaches the queue as the event \<open>Complete\<close> of its promise.\<close>

definition likeContentItem :: "int \<Rightarrow> string \<Rightarrow> int \<Rightarrow> scheduler \<Rightarrow> scheduler" where
  "likeContentItem now digits ts s = enqueue source_config Like now digits ts s"

text \<open>The number of \<open>add_like\<close> calls that returned without error: the likes inserted.\<close>

definition likes_inserted :: "backend_call list \<Rightarrow> nat" where
  "likes_inserted calls = length (filter (\<lambda>c. c = AddLikeCall (RpcReply None)) calls)"

text \<open>A backend on which the like is inserted and the re-read of the item fails: the
  replies of the query before and after the insertion, the \<open>add_like\<close> call without error,
  and the error of \<open>.single()\<close>.\<close>

definition not_liked :: query_reply where
  "not_liked = QueryReply None (Some 0) (Some [])"

definition liked :: query_reply where
  "liked = QueryReply None (Some 1) (Some [''id''])"

definition reread_fails :: backend where
  "reread_fails =
     \<lparr>pre_check = not_liked,
      double_check = (\<lambda>n. if n = 0 then not_liked else liked),
      add_like = (\<lambda>n. RpcReply None),
      fetch_item = (\<lambda>n. FetchReply VNull (Some (PgError ''PGRST116'' (Some ''no rows''))))\<rparr>"
subsection \<open>What the claims speak of\<close>

text \<open>
  A settlement comes from the operation itself (\<open>ran\<close>), or from the queue: the overflow
  error or the timeout error.
\<close>

fun ran :: "settlement \<Rightarrow> bool" where
  "ran (Resolved v) = True"
| "ran (Rejected (OperationFailure e)) = True"
| "ran (Rejected QueueOverflow) = False"
| "ran (Rejected RequestTimeout) = False"


text \<open>
  The promises rejected with the overflow error and the promises resolved, in the order of
  their settlement.
\<close>

definition overflowed :: "scheduler \<Rightarrow> nat list" where
  "overflowed s = map fst (filter (\<lambda>p. snd p = Rejected QueueOverflow) (settled s))"


text \<open>
  The order of the pending queue: by timestamp, and by the order of submission (the number
  of the promise) among equal timestamps.
\<close>

definition before :: "QueuedRequest \<Rightarrow> QueuedRequest \<Rightarrow> bool" where
  "before a b \<longleftrightarrow>
     timestamp a < timestamp b \<or> (timestamp a = timestamp b \<and> promise a < promise b)"

text \<open>
  \<open>no_overtake a b\<close>: \<open>b\<close>, which comes after \<open>a\<close>, was not submitted before \<open>a\<close> with a timestamp
  that is not later.
\<close>

definition no_overtake :: "QueuedRequest \<Rightarrow> QueuedRequest \<Rightarrow> bool" where
  "no_overtake a b \<longleftrightarrow> \<not> (timestamp b \<le> timestamp a \<and> promise b < promise a)"

text \<open>
  The timestamps read by the submissions of a run, in order; the ids it composes; and the
  events that are submissions.
\<close>

fun stamps :: "event list \<Rightarrow> int list" where
  "stamps [] = []"
| "stamps (Enqueue ty now digits ts # es) = ts # stamps es"
| "stamps (e # es) = stamps es"

fun ids :: "event list \<Rightarrow> request_id list" where
  "ids [] = []"
| "ids (Enqueue ty now digits ts # es) = (ty, now, digits) # ids es"
| "ids (e # es) = ids es"


text \<open>
  A submission collides when the id it composes is the id of a request that is pending at
  that moment, after the overflow guard. In a run with \<open>fresh_ids\<close> no submission collides.
\<close>

fun collides :: "config \<Rightarrow> event \<Rightarrow> scheduler \<Rightarrow> bool" where
  "collides cfg (Enqueue ty now digits ts) s \<longleftrightarrow>
     (ty, now, digits) \<in> req_id ` set (queue (evict cfg s))"
| "collides cfg e s \<longleftrightarrow> False"

fun fresh_ids :: "config \<Rightarrow> scheduler \<Rightarrow> event list \<Rightarrow> bool" where
  "fresh_ids cfg s [] \<longleftrightarrow> True"
| "fresh_ids cfg s (e # es) \<longleftrightarrow>
     \<not> collides cfg e s \<and> (case step cfg e s of None \<Rightarrow> True | Some s' \<Rightarrow> fresh_ids cfg s' es)"

section \<open>Invariants\<close>

subsection \<open>Whatever the ids\<close>

text \<open>
  A promise is pending, awaited or settled by its operation, and never two of these; the
  numbers issued are below the next one.
\<close>

definition inv_promises :: "scheduler \<Rightarrow> bool" where
  "inv_promises s \<longleftrightarrow>
     distinct (map promise (queue s) @ running s @
               map fst (filter (\<lambda>p. ran (snd p)) (settled s))) \<and>
     (\<forall>r\<in>set (queue s). promise r < next_promise s) \<and>
     (\<forall>p\<in>set (running s). p < next_promise s) \<and>
     (\<forall>p\<in>set (settled s). fst p < next_promise s)"

text \<open>
  Every armed timer is the timer of a pending request. Handles are positive, below the next
  one, and no two pending requests share one.
\<close>

definition inv_timers :: "scheduler \<Rightarrow> bool" where
  "inv_timers s \<longleftrightarrow>
     distinct (map handle (timers s)) \<and>
     distinct (map timeout (queue s)) \<and>
     (\<forall>t\<in>set (timers s). \<exists>r\<in>set (queue s).
        timeout r = handle t \<and> req_id r = timer_id t \<and> promise r = timer_promise t) \<and>
     (\<forall>r\<in>set (queue s). 0 < timeout r \<and> timeout r < next_handle s) \<and>
     0 < next_handle s"

text \<open>
  The counter \<open>processing\<close> is the number of awaited operations and does not exceed the
  limit.
\<close>

definition inv_proc :: "config \<Rightarrow> scheduler \<Rightarrow> bool" where
  "inv_proc cfg s \<longleftrightarrow>
     processing s = int (length (running s)) \<and> length (running s) \<le> MAX_CONCURRENT cfg"

text \<open>
  The operations started are those that run and those that have settled their promise
  themselves.
\<close>

definition inv_started :: "scheduler \<Rightarrow> bool" where
  "inv_started s \<longleftrightarrow>
     distinct (map promise (started s)) \<and>
     set (map promise (started s)) = set (running s) \<union> fst ` {p \<in> set (settled s). ran (snd p)}"

definition inv_sorted :: "scheduler \<Rightarrow> bool" where
  "inv_sorted s \<longleftrightarrow> sorted_wrt before (queue s)"

text \<open>A request rejected with the overflow error is not pending and has not been started.\<close>

definition inv_evicted :: "scheduler \<Rightarrow> bool" where
  "inv_evicted s \<longleftrightarrow>
     (\<forall>p\<in>set (settled s). snd p = Rejected QueueOverflow \<longrightarrow>
        fst p \<notin> promise ` set (queue s) \<and> fst p \<notin> promise ` set (started s))"

definition inv :: "config \<Rightarrow> scheduler \<Rightarrow> bool" where
  "inv cfg s \<longleftrightarrow>
     inv_promises s \<and> inv_timers s \<and> inv_proc cfg s \<and> inv_started s \<and> inv_sorted s \<and>
     inv_evicted s"


text \<open>
  While requests are pending, every slot is taken by a running operation or by a pending
  \<open>processQueue\<close> callback.
\<close>

definition inv_progress :: "config \<Rightarrow> scheduler \<Rightarrow> bool" where
  "inv_progress cfg s \<longleftrightarrow> (queue s \<noteq> [] \<longrightarrow> int (MAX_CONCURRENT cfg) \<le> processing s + int (callbacks s))"

text \<open>
  An armed timer is due within \<open>REQUEST_TIMEOUT\<close> from now: it was armed in the past, for that
  delay.
\<close>

definition inv_due :: "config \<Rightarrow> scheduler \<Rightarrow> bool" where
  "inv_due cfg s \<longleftrightarrow> (\<forall>t\<in>set (timers s). due t \<le> clock s + REQUEST_TIMEOUT cfg)"

text \<open>
  Starts followed by the pending queue: no request overtakes one submitted before it with
  a timestamp not later; and, when the clock read by the submissions still to come does
  not go back, the whole list is sorted by timestamp.
\<close>

definition inv_order :: "scheduler \<Rightarrow> bool" where
  "inv_order s \<longleftrightarrow> sorted_wrt no_overtake (started s @ queue s)"

definition inv_mono :: "scheduler \<Rightarrow> int list \<Rightarrow> bool" where
  "inv_mono s future \<longleftrightarrow>
     sorted (map timestamp (started s @ queue s)) \<and>
     (\<forall>r\<in>set (started s @ queue s). \<forall>t\<in>set future. timestamp r \<le> t) \<and>
     sorted future"

subsection \<open>While no submission collides\<close>

text \<open>
  The pending requests have different ids and each has its timer armed; every promise
  issued is in exactly one of three places: pending, awaited, settled, and the log of
  settlements names no promise twice.
\<close>

definition inv_unique :: "scheduler \<Rightarrow> bool" where
  "inv_unique s \<longleftrightarrow>
     distinct (map req_id (queue s)) \<and>
     (\<forall>r\<in>set (queue s). \<exists>t\<in>set (timers s).
        handle t = timeout r \<and> timer_id t = req_id r \<and> timer_promise t = promise r) \<and>
     distinct (map promise (queue s) @ running s @ map fst (settled s)) \<and>
     promise ` set (queue s) \<union> set (running s) \<union> fst ` set (settled s) = {..<next_promise s}"

section \<open>Scenarios\<close>

text \<open>Configurations and runs on which the theorems are instantiated.\<close>

definition small_config :: config where
  "small_config = \<lparr>MAX_CONCURRENT = 1, MAX_QUEUE_SIZE = 2, REQUEST_TIMEOUT = 10\<rparr>"

definition one_at_a_time :: config where
  "one_at_a_time = \<lparr>MAX_CONCURRENT = 1, MAX_QUEUE_SIZE = 1000, REQUEST_TIMEOUT = 30000\<rparr>"

definition queue_of_five :: config where
  "queue_of_five = \<lparr>MAX_CONCURRENT = 3, MAX_QUEUE_SIZE = 5, REQUEST_TIMEOUT = 30000\<rparr>"

text \<open>Five submissions, more than the three that may run.\<close>

definition five_requests :: "event list" where
  "five_requests =
     [Enqueue Like 0 ''a'' 0, Enqueue Unlike 0 ''b'' 0, Enqueue Like 1 ''c'' 1,
      Enqueue BoardUpdate 1 ''d'' 1, Enqueue Like 2 ''e'' 2]"

text \<open>Three submissions take the slots; the next four wait, stamped 5, 3, 4 and 3.\<close>

definition out_of_order :: "event list" where
  "out_of_order =
     [Enqueue Like 1 ''a'' 1, Enqueue Like 1 ''b'' 1, Enqueue Like 2 ''c'' 2,
      Enqueue Like 5 ''d'' 5, Enqueue Unlike 3 ''e'' 3, Enqueue Like 4 ''f'' 4,
      Enqueue Like 3 ''g'' 3]"


text \<open>With \<open>small_config\<close>: a request waits until its timer is due, and the slot is freed at
  that moment.\<close>

definition wait_then_free :: "event list" where
  "wait_then_free =
     [Enqueue Like 0 ''a'' 0, Enqueue Unlike 1 ''b'' 1, Tick 10, Complete 0 (Inr VNull)]"

text \<open>With \<open>small_config\<close>: a request waits and its timer is not yet due.\<close>

definition waiting :: "event list" where
  "waiting = [Enqueue Like 0 ''a'' 0, Enqueue Unlike 1 ''b'' 1]"

text \<open>With \<open>small_config\<close>: promise 0 is awaited, promises 2 and 3 are pending and their
  timers are due.\<close>

definition pending_and_due :: "event list" where
  "pending_and_due =
     [Enqueue Like 0 ''a'' 0, Enqueue Unlike 0 ''b'' 0, Enqueue ContentUpdate 1 ''c'' 1,
      Enqueue BoardUpdate 2 ''d'' 2, Tick 10]"

text \<open>With \<open>small_config\<close>: promise 1 is evicted, promise 2 times out, promise 0 succeeds and
  promise 3 fails.\<close>

definition four_ways :: "event list" where
  "four_ways =
     [Enqueue Like 0 ''a'' 0, Enqueue Unlike 0 ''b'' 0, Enqueue ContentUpdate 1 ''c'' 1,
      Enqueue BoardUpdate 2 ''d'' 2, Tick 10,
      Timeout 3, Complete 0 (Inr (VData ''item'')), Callback,
      Complete 3 (Inl (ThrownExn ''network''))]"

text \<open>With \<open>small_config\<close>: two pending requests with the same id. Promise 0 takes the slot.
  The second submission reads the clock at 1 and draws the digits \<open>b\<close>. So does the third,
  but the clock is set back before it reads its timestamp, 0, and the ordered insertion puts
  it first in the queue. The timers become due, and the timer of the second submission
  fires.\<close>

definition same_id_fired :: "event list" where
  "same_id_fired =
     [Enqueue Like 0 ''a'' 0, Enqueue Like 1 ''b'' 1, Enqueue Like 1 ''b'' 0,
      Tick 10, Timeout 2]"

text \<open>Then the slot is freed, and every operation that is started returns.\<close>

definition same_id_drained :: "event list" where
  "same_id_drained =
     same_id_fired @ [Complete 0 (Inr VNull), Callback, Complete 1 (Inr VNull), Callback]"

text \<open>The wall clock is set back between two submissions.\<close>

definition retreating_clock :: "event list" where
  "retreating_clock = [Enqueue Like 5 ''a'' 5, Enqueue Like 3 ''b'' 3]"

text \<open>With \<open>one_at_a_time\<close>: three operations submitted at 0, 1 and 2, each completed before
  the next starts.\<close>

definition submit_ABC :: "event list" where
  "submit_ABC =
     [Enqueue Like 0 ''a'' 0, Tick 1, Enqueue Unlike 1 ''b'' 1, Tick 1,
      Enqueue ContentUpdate 2 ''c'' 2,
      Complete 0 (Inr VNull), Callback, Complete 1 (Inr VNull), Callback]"

text \<open>With \<open>one_at_a_time\<close>: two requests with the same timestamp wait while the slot is
  freed, and then start one after the other.\<close>

definition same_stamp :: "event list" where
  "same_stamp =
     [Enqueue Like 0 ''a'' 0, Enqueue Unlike 1 ''b'' 1, Enqueue ContentUpdate 1 ''c'' 1,
      Complete 0 (Inr VNull)]"

definition same_stamp_started :: "event list" where
  "same_stamp_started = same_stamp @ [Callback, Complete 1 (Inr VNull), Callback]"





text \<open>A burst whose timestamps go back: the ninth submission is stamped before the fourth
  to eighth, which wait.\<close>

definition burst_stamped_back :: "event list" where
  "burst_stamped_back =
     [Enqueue Like 0 ''a'' 0, Enqueue Like 0 ''b'' 0, Enqueue Like 0 ''c'' 0,
      Enqueue Like 1 ''d'' 1, Enqueue Like 2 ''e'' 2, Enqueue Like 3 ''f'' 3,
      Enqueue Like 4 ''g'' 4, Enqueue Like 5 ''h'' 5, Enqueue Like 0 ''i'' 0,
      Enqueue Like 6 ''j'' 6]"

section \<open>Proofs\<close>

subsection \<open>Arrays\<close>

lemma findIndex_None: "findIndex P xs = None \<longleftrightarrow> (\<forall>x\<in>set xs. \<not> P x)"
  by (induction xs) auto

lemma findIndex_Some: "findIndex P xs = Some i \<Longrightarrow> i < length xs \<and> P (xs ! i)"
  by (induction xs arbitrary: i) (auto split: if_splits)

lemma findIndex_exists: "x \<in> set xs \<Longrightarrow> P x \<Longrightarrow> \<exists>i. findIndex P xs = Some i"
  using findIndex_None[of P xs] by (cases "findIndex P xs") auto

lemma splice_eq:
  "(case findIndex P q of None \<Rightarrow> q @ [r] | Some i \<Rightarrow> take i q @ r # drop i q) =
     takeWhile (\<lambda>x. \<not> P x) q @ r # dropWhile (\<lambda>x. \<not> P x) q"
  by (induction q) (auto split: option.splits)

lemma insert_request_eq:
  "insert_request r q =
     takeWhile (\<lambda>x. \<not> timestamp r < timestamp x) q @
     r # dropWhile (\<lambda>x. \<not> timestamp r < timestamp x) q"
  unfolding insert_request_def by (rule splice_eq)

lemma insert_request_split:
  obtains xs ys where "q = xs @ ys" "insert_request r q = xs @ r # ys"
    "\<forall>x\<in>set xs. \<not> timestamp r < timestamp x" "ys = [] \<or> timestamp r < timestamp (hd ys)"
proof
  let ?P = "\<lambda>x. \<not> timestamp r < timestamp x"
  show "q = takeWhile ?P q @ dropWhile ?P q" by simp
  show "insert_request r q = takeWhile ?P q @ r # dropWhile ?P q" by (rule insert_request_eq)
  show "\<forall>x\<in>set (takeWhile ?P q). \<not> timestamp r < timestamp x"
    by (auto dest: set_takeWhileD)
  show "dropWhile ?P q = [] \<or> timestamp r < timestamp (hd (dropWhile ?P q))"
    using hd_dropWhile[of ?P q] by blast
qed

lemma set_insert_request [simp]: "set (insert_request r q) = insert r (set q)"
proof -
  obtain xs ys where "q = xs @ ys" "insert_request r q = xs @ r # ys"
    by (rule insert_request_split)
  then show ?thesis by simp
qed

lemma length_insert_request [simp]: "length (insert_request r q) = Suc (length q)"
proof -
  obtain xs ys where "q = xs @ ys" "insert_request r q = xs @ r # ys"
    by (rule insert_request_split)
  then show ?thesis by simp
qed

lemma distinct_map_insert_request:
  "distinct (map f (insert_request r q)) = (f r \<notin> f ` set q \<and> distinct (map f q))"
proof -
  obtain xs ys where "q = xs @ ys" "insert_request r q = xs @ r # ys"
    by (rule insert_request_split)
  then show ?thesis by auto
qed

lemma insert_request_latest:
  assumes "\<forall>x\<in>set q. timestamp x \<le> timestamp r"
  shows "insert_request r q = q @ [r]"
proof -
  obtain xs ys where q: "q = xs @ ys" and ins: "insert_request r q = xs @ r # ys"
    and ys: "ys = [] \<or> timestamp r < timestamp (hd ys)"
    by (rule insert_request_split)
  have "ys = []"
  proof (rule ccontr)
    assume "ys \<noteq> []"
    then have "hd ys \<in> set q" using q by simp
    with assms have "timestamp (hd ys) \<le> timestamp r" by blast
    with ys \<open>ys \<noteq> []\<close> show False by simp
  qed
  with q ins show ?thesis by simp
qed

text \<open>\<open>splice(index, 1)\<close> on a list without repetition removes the element itself.\<close>

lemma remove_nth_eq_filter:
  "distinct (map g xs) \<Longrightarrow> i < length xs \<Longrightarrow>
     take i xs @ drop (Suc i) xs = filter (\<lambda>x. g x \<noteq> g (xs ! i)) xs"
proof (induction xs arbitrary: i)
  case Nil
  then show ?case by simp
next
  case (Cons a xs)
  show ?case
  proof (cases i)
    case 0
    from Cons.prems have "\<forall>x\<in>set xs. g x \<noteq> g a" by (auto simp: image_iff)
    with 0 show ?thesis by (simp add: filter_id_conv)
  next
    case (Suc j)
    with Cons.prems have j: "j < length xs" and d: "distinct (map g xs)" by simp_all
    from Cons.prems j have "g a \<noteq> g (xs ! j)" by (auto simp: image_iff)
    with Cons.IH[OF d j] Suc show ?thesis by simp
  qed
qed

lemma filter_head:
  "distinct (map g (r # rest)) \<Longrightarrow> filter (\<lambda>x. g x \<noteq> g r) (r # rest) = rest"
  by (auto simp: filter_id_conv image_iff)

lemma unique_by_key:
  "distinct (map f xs) \<Longrightarrow> x \<in> set xs \<Longrightarrow> y \<in> set xs \<Longrightarrow> f x = f y \<Longrightarrow> x = y"
  by (metis distinct_map inj_onD)

lemma filter_by_other_key:
  assumes "distinct (map f xs)" "distinct (map g xs)" "r \<in> set xs"
  shows "filter (\<lambda>x. f x \<noteq> f r) xs = filter (\<lambda>x. g x \<noteq> g r) xs"
proof (rule filter_cong[OF refl])
  fix x assume "x \<in> set xs"
  with assms show "(f x \<noteq> f r) = (g x \<noteq> g r)"
    using unique_by_key[of f xs x r] unique_by_key[of g xs x r] by blast
qed

lemma find_timer: "find (\<lambda>t. handle t = h) ts = Some t \<Longrightarrow> handle t = h \<and> t \<in> set ts"
  by (induction ts) (auto split: if_splits)

lemma find_armed:
  "distinct (map handle ts) \<Longrightarrow> t \<in> set ts \<Longrightarrow> find (\<lambda>x. handle x = handle t) ts = Some t"
  by (induction ts) (auto simp: image_iff)

lemma filter_single:
  "distinct (map fst xs) \<Longrightarrow> (i, x) \<in> set xs \<Longrightarrow> filter (\<lambda>p. fst p = i) xs = [(i, x)]"
  by (induction xs) (auto simp: filter_empty_conv image_iff)

subsection \<open>Orders\<close>

lemma sorted_wrt_mono_rel': "sorted_wrt P xs \<Longrightarrow> (\<And>x y. P x y \<Longrightarrow> Q x y) \<Longrightarrow> sorted_wrt Q xs"
  by (induction xs) auto

lemma before_no_overtake: "before a b \<Longrightarrow> no_overtake a b"
  by (auto simp: before_def no_overtake_def)

lemma sorted_timestamps: "sorted_wrt before q \<Longrightarrow> sorted (map timestamp q)"
proof -
  assume "sorted_wrt before q"
  then have "sorted_wrt (\<lambda>x y. timestamp x \<le> timestamp y) q"
    by (rule sorted_wrt_mono_rel') (auto simp: before_def)
  then show ?thesis by (simp add: sorted_map)
qed

lemma sorted_insert_request:
  assumes "sorted_wrt before q" "\<forall>x\<in>set q. promise x < promise r"
  shows "sorted_wrt before (insert_request r q)"
proof -
  obtain xs ys where q: "q = xs @ ys" and ins: "insert_request r q = xs @ r # ys"
    and xs: "\<forall>x\<in>set xs. \<not> timestamp r < timestamp x"
    and ys: "ys = [] \<or> timestamp r < timestamp (hd ys)"
    by (rule insert_request_split)
  have pre: "\<forall>x\<in>set xs. before x r" using xs assms(2) q by (auto simp: before_def)
  have post: "\<forall>y\<in>set ys. before r y"
  proof (cases ys)
    case Nil
    then show ?thesis by simp
  next
    case (Cons y0 ys')
    with ys have "timestamp r < timestamp y0" by simp
    moreover from assms(1) q Cons have "\<forall>y\<in>set ys'. before y0 y" by (simp add: sorted_wrt_append)
    ultimately show ?thesis using Cons by (fastforce simp: before_def)
  qed
  from assms(1) q have "sorted_wrt before xs" "sorted_wrt before ys"
    "\<forall>x\<in>set xs. \<forall>y\<in>set ys. before x y" by (simp_all add: sorted_wrt_append)
  with pre post show ?thesis unfolding ins by (simp add: sorted_wrt_append)
qed

subsection \<open>Runs\<close>

text \<open>The equations by which a run on given events is computed.\<close>

lemmas sched_defs =
  step_def enqueue_def evict_def arm_and_insert_def setTimeout_def processQueue_def
  clearTimeout_def reject_def resolve_def insert_request_def complete_def onTimeout_def
  removeFromQueue_def Let_def

lemma run_append:
  "run cfg s (es @ es') = (case run cfg s es of None \<Rightarrow> None | Some s1 \<Rightarrow> run cfg s1 es')"
  by (induction es arbitrary: s) (auto split: option.splits)


subsection \<open>Timers and pending requests\<close>

lemma request_of_timer:
  "inv_timers s \<Longrightarrow> t \<in> set (timers s) \<Longrightarrow>
     \<exists>r\<in>set (queue s). timeout r = handle t \<and> req_id r = timer_id t \<and> promise r = timer_promise t"
  by (simp add: inv_timers_def)

lemma queue_timeout_nonzero: "inv_timers s \<Longrightarrow> r \<in> set (queue s) \<Longrightarrow> 0 < timeout r"
  by (simp add: inv_timers_def)

text \<open>A request leaves the queue and timers are disarmed, its own among them.\<close>

lemma inv_timers_remove:
  assumes tm: "inv_timers s" and dist: "distinct (map promise (queue s))"
    and r: "r \<in> set (queue s)"
    and q': "queue s' = filter (\<lambda>x. promise x \<noteq> promise r) (queue s)"
    and t': "timers s' = filter P (timers s)"
    and P: "\<forall>t\<in>set (timers s). P t \<longrightarrow> handle t \<noteq> timeout r"
    and h': "next_handle s' = next_handle s"
  shows "inv_timers s'"
proof -
  have 1: "distinct (map handle (timers s'))"
    using tm by (simp add: t' inv_timers_def distinct_map_filter)
  have 2: "distinct (map timeout (queue s'))"
    using tm by (simp add: q' inv_timers_def distinct_map_filter)
  have 3: "\<forall>t\<in>set (timers s'). \<exists>x\<in>set (queue s').
             timeout x = handle t \<and> req_id x = timer_id t \<and> promise x = timer_promise t"
  proof
    fix t assume "t \<in> set (timers s')"
    then have tin: "t \<in> set (timers s)" and Pt: "P t" by (simp_all add: t')
    from request_of_timer[OF tm tin] obtain x where x: "x \<in> set (queue s)"
      "timeout x = handle t" "req_id x = timer_id t" "promise x = timer_promise t" by blast
    from P tin Pt x(2) have "timeout x \<noteq> timeout r" by simp
    then have "x \<noteq> r" by auto
    with dist x(1) r have "promise x \<noteq> promise r"
      using unique_by_key[of promise "queue s" x r] by blast
    with x show "\<exists>x\<in>set (queue s').
             timeout x = handle t \<and> req_id x = timer_id t \<and> promise x = timer_promise t"
      by (auto simp: q')
  qed
  have 4: "\<forall>x\<in>set (queue s'). 0 < timeout x \<and> timeout x < next_handle s'"
    using tm by (simp add: q' h' inv_timers_def)
  have 5: "0 < next_handle s'" using tm by (simp add: h' inv_timers_def)
  from 1 2 3 4 5 show ?thesis by (simp add: inv_timers_def)
qed

subsection \<open>The methods on a state that satisfies the invariant\<close>

lemma processQueue_eq:
  assumes "inv_timers s"
  shows "processQueue cfg s =
     (if int (MAX_CONCURRENT cfg) \<le> processing s \<or> queue s = [] then s
      else s\<lparr>queue := tl (queue s), processing := processing s + 1,
             timers := filter (\<lambda>t. handle t \<noteq> timeout (hd (queue s))) (timers s),
             started := started s @ [hd (queue s)],
             running := running s @ [promise (hd (queue s))]\<rparr>)"
proof (cases "queue s")
  case Nil
  then show ?thesis by (simp add: processQueue_def)
next
  case (Cons r rest)
  then have "0 < timeout r" using queue_timeout_nonzero[OF assms, of r] by simp
  then show ?thesis using Cons by (simp add: processQueue_def clearTimeout_def Let_def)
qed

lemma evict_eq:
  assumes "inv_timers s"
  shows "evict cfg s =
     (if MAX_QUEUE_SIZE cfg \<le> length (queue s) \<and> queue s \<noteq> [] then
        s\<lparr>queue := tl (queue s),
          timers := filter (\<lambda>t. handle t \<noteq> timeout (hd (queue s))) (timers s),
          settled := settled s @ [(promise (hd (queue s)), Rejected QueueOverflow)]\<rparr>
      else s)"
proof (cases "queue s")
  case Nil
  then show ?thesis by (simp add: evict_def)
next
  case (Cons r rest)
  then have "0 < timeout r" using queue_timeout_nonzero[OF assms, of r] by simp
  then show ?thesis using Cons by (simp add: evict_def clearTimeout_def reject_def Let_def)
qed

lemma arm_and_insert_eq:
  "arm_and_insert cfg ty now digits ts s =
     s\<lparr>next_promise := Suc (next_promise s),
       timers := timers s @
         [\<lparr>handle = next_handle s, timer_id = (ty, now, digits),
           timer_promise = next_promise s, due = clock s + REQUEST_TIMEOUT cfg\<rparr>],
       next_handle := Suc (next_handle s),
       queue := insert_request
         \<lparr>req_id = (ty, now, digits), timestamp = ts, req_type = ty,
           promise = next_promise s, timeout = next_handle s\<rparr> (queue s)\<rparr>"
  by (simp add: arm_and_insert_def setTimeout_def Let_def)

text \<open>The timeout callback removes the first pending request that has the id of the timer,
  and disarms the timer of that request.\<close>

lemma onTimeout_cases:
  assumes tm: "inv_timers s" and dist: "distinct (map promise (queue s))"
    and t: "t \<in> set (timers s)"
  obtains removed where "removed \<in> set (queue s)" "req_id removed = timer_id t"
    "onTimeout t s =
       s\<lparr>timers := filter (\<lambda>x. handle x \<noteq> handle t \<and> handle x \<noteq> timeout removed) (timers s),
         queue := filter (\<lambda>x. promise x \<noteq> promise removed) (queue s),
         settled := settled s @ [(timer_promise t, Rejected RequestTimeout)]\<rparr>"
proof -
  from request_of_timer[OF tm t] obtain r where r: "r \<in> set (queue s)" "req_id r = timer_id t"
    by blast
  from findIndex_exists[of r "queue s" "\<lambda>req. req_id req = timer_id t"] r
  obtain i where i: "findIndex (\<lambda>req. req_id req = timer_id t) (queue s) = Some i" by blast
  from findIndex_Some[OF i] have il: "i < length (queue s)"
    and idi: "req_id (queue s ! i) = timer_id t" by simp_all
  have mem: "queue s ! i \<in> set (queue s)" using il by simp
  have nz: "0 < timeout (queue s ! i)" using queue_timeout_nonzero[OF tm mem] .
  have rm: "take i (queue s) @ drop (Suc i) (queue s) =
              filter (\<lambda>x. promise x \<noteq> promise (queue s ! i)) (queue s)"
    by (rule remove_nth_eq_filter[OF dist il])
  have "onTimeout t s =
       s\<lparr>timers := filter (\<lambda>x. handle x \<noteq> handle t \<and> handle x \<noteq> timeout (queue s ! i)) (timers s),
         queue := filter (\<lambda>x. promise x \<noteq> promise (queue s ! i)) (queue s),
         settled := settled s @ [(timer_promise t, Rejected RequestTimeout)]\<rparr>"
    using i rm nz
    by (simp add: onTimeout_def removeFromQueue_def clearTimeout_def reject_def Let_def)
  with mem idi show thesis by (rule that)
qed

lemma settled_processQueue [simp]: "settled (processQueue cfg s) = settled s"
  by (simp add: processQueue_def clearTimeout_def Let_def split: list.splits)

lemma settled_arm_and_insert [simp]: "settled (arm_and_insert cfg ty now digits ts s) = settled s"
  by (simp add: arm_and_insert_eq)


lemma settled_onTimeout:
  "settled (onTimeout t s) = settled s @ [(timer_promise t, Rejected RequestTimeout)]"
  by (simp add: onTimeout_def reject_def removeFromQueue_def clearTimeout_def Let_def
      split: option.splits)


lemma evict_fields:
  "next_promise (evict cfg s) = next_promise s" "next_handle (evict cfg s) = next_handle s"
  "clock (evict cfg s) = clock s" "started (evict cfg s) = started s"
  "running (evict cfg s) = running s" "processing (evict cfg s) = processing s"
  "callbacks (evict cfg s) = callbacks s"
  by (auto simp: evict_def reject_def clearTimeout_def Let_def split: list.splits)

subsection \<open>The invariant holds in every state of every run\<close>

lemma inv_init: "inv cfg init"
  by (simp add: inv_def inv_promises_def inv_timers_def inv_proc_def inv_started_def
      inv_sorted_def inv_evicted_def init_def)

lemma queue_promises_distinct: "inv_promises s \<Longrightarrow> distinct (map promise (queue s))"
  by (simp add: inv_promises_def)

lemma started_promises:
  "inv_started s \<Longrightarrow> r \<in> set (started s) \<Longrightarrow>
     promise r \<in> set (running s) \<or> (\<exists>x. (promise r, x) \<in> set (settled s) \<and> ran x)"
proof -
  assume a: "inv_started s" "r \<in> set (started s)"
  from a(2) have "promise r \<in> set (map promise (started s))" by simp
  with a(1) have "promise r \<in> set (running s) \<union> fst ` {p \<in> set (settled s). ran (snd p)}"
    by (simp add: inv_started_def)
  then show ?thesis by auto
qed

lemma started_promise_bound:
  assumes "inv_promises s" "inv_started s" "r \<in> set (started s)"
  shows "promise r < next_promise s"
proof -
  from started_promises[OF assms(2,3)] show ?thesis
  proof
    assume "promise r \<in> set (running s)"
    with assms(1) show ?thesis by (simp add: inv_promises_def)
  next
    assume "\<exists>x. (promise r, x) \<in> set (settled s) \<and> ran x"
    then obtain x where "(promise r, x) \<in> set (settled s)" by blast
    with assms(1) have "fst (promise r, x) < next_promise s" unfolding inv_promises_def by blast
    then show ?thesis by simp
  qed
qed

lemma started_not_queued:
  assumes "inv_promises s" "inv_started s" "r \<in> set (queue s)"
  shows "promise r \<notin> promise ` set (started s)"
proof
  assume "promise r \<in> promise ` set (started s)"
  then obtain x where x: "x \<in> set (started s)" "promise x = promise r" by auto
  from assms(1) have d: "promise ` set (queue s) \<inter> set (running s) = {}"
    "promise ` set (queue s) \<inter> fst ` set (filter (\<lambda>p. ran (snd p)) (settled s)) = {}"
    by (auto simp: inv_promises_def)
  from assms(3) have m: "promise r \<in> promise ` set (queue s)" by simp
  from started_promises[OF assms(2) x(1)] show False
  proof
    assume "promise x \<in> set (running s)"
    with d(1) m x(2) show False by auto
  next
    assume "\<exists>y. (promise x, y) \<in> set (settled s) \<and> ran y"
    then obtain y where "(promise x, y) \<in> set (settled s)" "ran y" by blast
    then have "promise x \<in> fst ` set (filter (\<lambda>p. ran (snd p)) (settled s))" by force
    with d(2) m x(2) show False by auto
  qed
qed

lemma inv_processQueue:
  assumes "inv cfg s" shows "inv cfg (processQueue cfg s)"
proof (cases "int (MAX_CONCURRENT cfg) \<le> processing s \<or> queue s = []")
  case True
  then show ?thesis using assms by (simp add: processQueue_eq inv_def)
next
  case False
  then obtain r rest where q: "queue s = r # rest" by (cases "queue s") auto
  from assms have ps: "inv_promises s" and tm: "inv_timers s" and pr: "inv_proc cfg s"
    and st: "inv_started s" and so: "inv_sorted s" and ev: "inv_evicted s"
    by (simp_all add: inv_def)
  let ?s' = "processQueue cfg s"
  have eq: "?s' = s\<lparr>queue := rest, processing := processing s + 1,
             timers := filter (\<lambda>t. handle t \<noteq> timeout r) (timers s),
             started := started s @ [r],
             running := running s @ [promise r]\<rparr>"
    using False q by (simp add: processQueue_eq[OF tm])
  have nq: "promise r \<notin> promise ` set (started s)"
    using started_not_queued[OF ps st, of r] q by simp
  have "inv_promises ?s'" using ps q unfolding eq inv_promises_def by auto
  moreover have "inv_timers ?s'"
  proof (rule inv_timers_remove[OF tm queue_promises_distinct[OF ps], of r])
    show "queue ?s' = filter (\<lambda>x. promise x \<noteq> promise r) (queue s)"
      using queue_promises_distinct[OF ps] unfolding eq q
      by (simp add: filter_head del: filter.simps)
    show "timers ?s' = filter (\<lambda>t. handle t \<noteq> timeout r) (timers s)" by (simp add: eq)
  qed (simp_all add: eq q)
  moreover have "inv_proc cfg ?s'" using pr False unfolding eq inv_proc_def by auto
  moreover have "inv_started ?s'"
    using st nq unfolding eq inv_started_def by auto
  moreover have "inv_sorted ?s'" using so q unfolding eq inv_sorted_def by simp
  moreover have "inv_evicted ?s'" using ev q unfolding eq inv_evicted_def by auto
  ultimately show ?thesis by (simp add: inv_def)
qed

lemma inv_arm_and_insert:
  assumes "inv cfg s" shows "inv cfg (arm_and_insert cfg ty now digits ts s)"
proof -
  from assms have ps: "inv_promises s" and tm: "inv_timers s" and pr: "inv_proc cfg s"
    and st: "inv_started s" and so: "inv_sorted s" and ev: "inv_evicted s"
    by (simp_all add: inv_def)
  let ?s' = "arm_and_insert cfg ty now digits ts s"
  have fresh: "\<forall>x\<in>set (queue s). promise x < next_promise s"
    using ps unfolding inv_promises_def by auto
  have fresh': "\<forall>x\<in>set (started s). promise x < next_promise s"
    using started_promise_bound[OF ps st] by blast
  have hb: "\<forall>t\<in>set (timers s). handle t < next_handle s"
    using tm unfolding inv_timers_def by metis
  have fresh'': "\<forall>p\<in>set (settled s). fst p < next_promise s"
    "\<forall>p\<in>set (running s). p < next_promise s"
    using ps unfolding inv_promises_def by auto
  have "inv_promises ?s'"
  proof -
    have "next_promise s \<notin> promise ` set (queue s)" using fresh by auto
    moreover have "next_promise s \<notin> set (running s)" using fresh''(2) by auto
    moreover have "next_promise s \<notin> fst ` set (filter (\<lambda>p. ran (snd p)) (settled s))"
      using fresh''(1) by auto
    ultimately have "distinct (map promise (queue ?s') @ running ?s' @
               map fst (filter (\<lambda>p. ran (snd p)) (settled ?s')))"
      using ps unfolding arm_and_insert_eq inv_promises_def
      by (simp add: distinct_map_insert_request)
    moreover have "\<forall>r\<in>set (queue ?s'). promise r < next_promise ?s'"
      "\<forall>p\<in>set (running ?s'). p < next_promise ?s'"
      "\<forall>p\<in>set (settled ?s'). fst p < next_promise ?s'"
      using fresh fresh'' by (auto simp: arm_and_insert_eq less_Suc_eq)
    ultimately show ?thesis by (simp add: inv_promises_def)
  qed
  moreover have "inv_timers ?s'"
  proof -
    have "distinct (map handle (timers ?s'))"
      using tm hb unfolding arm_and_insert_eq inv_timers_def by auto
    moreover have "distinct (map timeout (queue ?s'))"
      using tm unfolding arm_and_insert_eq inv_timers_def
      by (auto simp: distinct_map_insert_request)
    moreover have "\<forall>t\<in>set (timers ?s'). \<exists>r\<in>set (queue ?s').
        timeout r = handle t \<and> req_id r = timer_id t \<and> promise r = timer_promise t"
      using tm unfolding arm_and_insert_eq inv_timers_def by auto
    moreover have "\<forall>r\<in>set (queue ?s'). 0 < timeout r \<and> timeout r < next_handle ?s'"
      using tm unfolding arm_and_insert_eq inv_timers_def by (auto simp: less_Suc_eq)
    moreover have "0 < next_handle ?s'" by (simp add: arm_and_insert_eq)
    ultimately show ?thesis by (simp add: inv_timers_def)
  qed
  moreover have "inv_proc cfg ?s'" using pr unfolding arm_and_insert_eq inv_proc_def by simp
  moreover have "inv_started ?s'" using st unfolding arm_and_insert_eq inv_started_def by simp
  moreover have "inv_sorted ?s'" using so fresh unfolding arm_and_insert_eq inv_sorted_def
    by (simp add: sorted_insert_request)
  moreover have "inv_evicted ?s'"
  proof -
    have "\<forall>p\<in>set (settled s). fst p \<noteq> next_promise s"
      using ps unfolding inv_promises_def by auto
    then show ?thesis using ev unfolding arm_and_insert_eq inv_evicted_def by auto
  qed
  ultimately show ?thesis by (simp add: inv_def)
qed

lemma inv_evict:
  assumes "inv cfg s" shows "inv cfg (evict cfg s)"
proof (cases "MAX_QUEUE_SIZE cfg \<le> length (queue s) \<and> queue s \<noteq> []")
  case False
  from assms have tm: "inv_timers s" by (simp add: inv_def)
  have "evict cfg s = s" using False by (auto simp: evict_eq[OF tm])
  then show ?thesis using assms by simp
next
  case True
  then obtain r rest where q: "queue s = r # rest" by (cases "queue s") auto
  from assms have ps: "inv_promises s" and tm: "inv_timers s" and pr: "inv_proc cfg s"
    and st: "inv_started s" and so: "inv_sorted s" and ev: "inv_evicted s"
    by (simp_all add: inv_def)
  let ?s' = "evict cfg s"
  have eq: "?s' = s\<lparr>queue := rest,
             timers := filter (\<lambda>t. handle t \<noteq> timeout r) (timers s),
             settled := settled s @ [(promise r, Rejected QueueOverflow)]\<rparr>"
    using True q by (simp add: evict_eq[OF tm])
  have nq: "promise r \<notin> promise ` set (started s)"
    using started_not_queued[OF ps st, of r] q by simp
  have "inv_promises ?s'" using ps q unfolding eq inv_promises_def by auto
  moreover have "inv_timers ?s'"
  proof (rule inv_timers_remove[OF tm queue_promises_distinct[OF ps], of r])
    show "queue ?s' = filter (\<lambda>x. promise x \<noteq> promise r) (queue s)"
      using queue_promises_distinct[OF ps] unfolding eq q
      by (simp add: filter_head del: filter.simps)
    show "timers ?s' = filter (\<lambda>t. handle t \<noteq> timeout r) (timers s)" by (simp add: eq)
  qed (simp_all add: eq q)
  moreover have "inv_proc cfg ?s'" using pr unfolding eq inv_proc_def by auto
  moreover have "inv_started ?s'"
    using st unfolding eq inv_started_def by auto
  moreover have "inv_sorted ?s'" using so q unfolding eq inv_sorted_def by simp
  moreover have "inv_evicted ?s'"
    using ev nq queue_promises_distinct[OF ps] q unfolding eq inv_evicted_def by auto
  ultimately show ?thesis by (simp add: inv_def)
qed

lemma complete_eq:
  obtains x where "ran x"
    "x = (case res of Inr v \<Rightarrow> Resolved v | Inl e \<Rightarrow> Rejected (OperationFailure e))"
    "complete p res s = s\<lparr>settled := settled s @ [(p, x)], processing := processing s - 1,
        callbacks := Suc (callbacks s), running := removeAll p (running s)\<rparr>"
  by (cases res) (auto simp: complete_def resolve_def reject_def)

lemma inv_complete:
  assumes "inv cfg s" "p \<in> set (running s)" shows "inv cfg (complete p res s)"
proof -
  from assms have ps: "inv_promises s" and tm: "inv_timers s" and pr: "inv_proc cfg s"
    and st: "inv_started s" and so: "inv_sorted s" and ev: "inv_evicted s"
    by (simp_all add: inv_def)
  let ?s' = "complete p res s"
  obtain x where x: "ran x" and eq: "?s' = s\<lparr>settled := settled s @ [(p, x)],
      processing := processing s - 1,
      callbacks := Suc (callbacks s), running := removeAll p (running s)\<rparr>"
    by (rule complete_eq)
  have dr: "distinct (running s)" using ps unfolding inv_promises_def by simp
  have len: "length (removeAll p (running s)) = length (running s) - 1"
    using dr assms(2) by (simp add: distinct_remove1_removeAll[symmetric] length_remove1)
  have "inv_promises ?s'" using ps assms(2) x unfolding eq inv_promises_def
    by (auto simp: distinct_removeAll)
  moreover have "inv_timers ?s'" using tm unfolding eq inv_timers_def by simp
  moreover have "inv_proc cfg ?s'" using pr len assms(2) unfolding eq inv_proc_def
    by (cases "running s") auto
  moreover have "inv_started ?s'"
    using st x assms(2) unfolding eq inv_started_def by (auto simp: image_iff)
  moreover have "inv_sorted ?s'" using so unfolding eq inv_sorted_def by simp
  moreover have "inv_evicted ?s'" using ev x unfolding eq inv_evicted_def by auto
  ultimately show ?thesis by (simp add: inv_def)
qed

lemma inv_onTimeout:
  assumes "inv cfg s" "t \<in> set (timers s)" shows "inv cfg (onTimeout t s)"
proof -
  from assms have ps: "inv_promises s" and tm: "inv_timers s" and pr: "inv_proc cfg s"
    and st: "inv_started s" and so: "inv_sorted s" and ev: "inv_evicted s"
    by (simp_all add: inv_def)
  let ?s' = "onTimeout t s"
  note dist = queue_promises_distinct[OF ps]
  obtain removed where rm: "removed \<in> set (queue s)" "req_id removed = timer_id t"
    and eq: "?s' =
       s\<lparr>timers := filter (\<lambda>x. handle x \<noteq> handle t \<and> handle x \<noteq> timeout removed) (timers s),
         queue := filter (\<lambda>x. promise x \<noteq> promise removed) (queue s),
         settled := settled s @ [(timer_promise t, Rejected RequestTimeout)]\<rparr>"
    by (rule onTimeout_cases[OF tm dist assms(2)])
  from request_of_timer[OF tm assms(2)] obtain r where r: "r \<in> set (queue s)"
    "promise r = timer_promise t" by blast
  have pb: "timer_promise t < next_promise s"
    using ps r unfolding inv_promises_def by metis
  have "inv_promises ?s'" using ps pb unfolding eq inv_promises_def
    by (auto simp: distinct_map_filter)
  moreover have "inv_timers ?s'"
    by (rule inv_timers_remove[OF tm dist rm(1),
          where P = "\<lambda>x. handle x \<noteq> handle t \<and> handle x \<noteq> timeout removed"])
       (auto simp: eq)
  moreover have "inv_proc cfg ?s'" using pr unfolding eq inv_proc_def by auto
  moreover have "inv_started ?s'"
    using st unfolding eq inv_started_def by auto
  moreover have "inv_sorted ?s'" using so unfolding eq inv_sorted_def by (simp add: sorted_wrt_filter)
  moreover have "inv_evicted ?s'" using ev unfolding eq inv_evicted_def by auto
  ultimately show ?thesis by (simp add: inv_def)
qed

lemma inv_callbacks_update [simp]: "inv cfg (s\<lparr>callbacks := c\<rparr>) = inv cfg s"
  by (simp add: inv_def inv_promises_def inv_timers_def inv_proc_def inv_started_def
      inv_sorted_def inv_evicted_def)

lemma inv_clock_update [simp]: "inv cfg (s\<lparr>clock := c\<rparr>) = inv cfg s"
  by (simp add: inv_def inv_promises_def inv_timers_def inv_proc_def inv_started_def
      inv_sorted_def inv_evicted_def)

lemma inv_enqueue: "inv cfg s \<Longrightarrow> inv cfg (enqueue cfg ty now digits ts s)"
  by (simp add: enqueue_def inv_processQueue inv_arm_and_insert inv_evict)

lemma inv_step:
  assumes "inv cfg s" "step cfg e s = Some s'" shows "inv cfg s'"
proof (cases e)
  case (Enqueue ty now digits ts)
  with assms show ?thesis by (auto simp: step_def intro: inv_enqueue)
next
  case (Complete p res)
  with assms show ?thesis by (auto simp: step_def split: if_splits intro: inv_complete)
next
  case (Timeout h)
  with assms show ?thesis
    by (auto simp: step_def split: if_splits option.splits dest!: find_timer intro: inv_onTimeout)
next
  case Callback
  with assms show ?thesis by (auto simp: step_def split: if_splits intro!: inv_processQueue)
next
  case (Tick d)
  with assms show ?thesis by (auto simp: step_def)
qed

lemma inv_run: "inv cfg s \<Longrightarrow> run cfg s es = Some s' \<Longrightarrow> inv cfg s'"
  by (induction es arbitrary: s) (auto split: option.splits dest: inv_step)

lemma reachable_inv: "run cfg init evs = Some s \<Longrightarrow> inv cfg s"
  using inv_run[OF inv_init] by blast

subsection \<open>Runs in which no submission collides\<close>

lemma unique_init: "inv_unique init"
  by (simp add: inv_unique_def init_def)

lemma timer_of_request:
  "inv_unique s \<Longrightarrow> r \<in> set (queue s) \<Longrightarrow>
     \<exists>t\<in>set (timers s). handle t = timeout r \<and> timer_id t = req_id r \<and> timer_promise t = promise r"
  by (simp add: inv_unique_def)

text \<open>A request leaves the queue and its timer is disarmed: the others keep their timers.\<close>

lemma unique_remove:
  assumes tm: "inv_timers s" and un: "inv_unique s" and r: "r \<in> set (queue s)"
    and q': "queue s' = filter (\<lambda>x. promise x \<noteq> promise r) (queue s)"
    and t': "timers s' = filter (\<lambda>t. handle t \<noteq> timeout r) (timers s)"
  shows "distinct (map req_id (queue s')) \<and>
         (\<forall>x\<in>set (queue s'). \<exists>t\<in>set (timers s').
            handle t = timeout x \<and> timer_id t = req_id x \<and> timer_promise t = promise x)"
proof
  show "distinct (map req_id (queue s'))"
    using un by (simp add: q' inv_unique_def distinct_map_filter)
  show "\<forall>x\<in>set (queue s'). \<exists>t\<in>set (timers s').
            handle t = timeout x \<and> timer_id t = req_id x \<and> timer_promise t = promise x"
  proof
    fix x assume "x \<in> set (queue s')"
    then have x: "x \<in> set (queue s)" "promise x \<noteq> promise r" by (simp_all add: q')
    then have "x \<noteq> r" by auto
    moreover from tm have "distinct (map timeout (queue s))" by (simp add: inv_timers_def)
    ultimately have "timeout x \<noteq> timeout r"
      using unique_by_key[of timeout "queue s" x r] x(1) r by blast
    moreover from timer_of_request[OF un x(1)] obtain t where "t \<in> set (timers s)"
      "handle t = timeout x" "timer_id t = req_id x" "timer_promise t = promise x" by blast
    ultimately show "\<exists>t\<in>set (timers s').
            handle t = timeout x \<and> timer_id t = req_id x \<and> timer_promise t = promise x"
      by (auto simp: t')
  qed
qed

lemma unique_processQueue:
  assumes "inv cfg s" "inv_unique s" shows "inv_unique (processQueue cfg s)"
proof (cases "int (MAX_CONCURRENT cfg) \<le> processing s \<or> queue s = []")
  case True
  then show ?thesis using assms by (simp add: processQueue_eq inv_def)
next
  case False
  then obtain r rest where q: "queue s = r # rest" by (cases "queue s") auto
  from assms have ps: "inv_promises s" and tm: "inv_timers s" by (simp_all add: inv_def)
  let ?s' = "processQueue cfg s"
  have eq: "?s' = s\<lparr>queue := rest, processing := processing s + 1,
             timers := filter (\<lambda>t. handle t \<noteq> timeout r) (timers s),
             started := started s @ [r],
             running := running s @ [promise r]\<rparr>"
    using False q by (simp add: processQueue_eq[OF tm])
  have qf: "queue ?s' = filter (\<lambda>x. promise x \<noteq> promise r) (queue s)"
    using queue_promises_distinct[OF ps] unfolding eq q
    by (simp add: filter_head del: filter.simps)
  have tf: "timers ?s' = filter (\<lambda>t. handle t \<noteq> timeout r) (timers s)" by (simp add: eq)
  have rq: "r \<in> set (queue s)" by (simp add: q)
  note a = unique_remove[OF tm assms(2) rq qf tf]
  have b: "distinct (map promise (queue ?s') @ running ?s' @ map fst (settled ?s'))"
    using assms(2) q unfolding eq inv_unique_def by auto
  have c: "promise ` set (queue ?s') \<union> set (running ?s') \<union> fst ` set (settled ?s') =
             {..<next_promise ?s'}"
    using assms(2) q unfolding eq inv_unique_def by auto
  from a b c show ?thesis by (simp add: inv_unique_def)
qed

lemma unique_evict:
  assumes "inv cfg s" "inv_unique s" shows "inv_unique (evict cfg s)"
proof (cases "MAX_QUEUE_SIZE cfg \<le> length (queue s) \<and> queue s \<noteq> []")
  case False
  from assms have tm: "inv_timers s" by (simp add: inv_def)
  have "evict cfg s = s" using False by (auto simp: evict_eq[OF tm])
  then show ?thesis using assms by simp
next
  case True
  then obtain r rest where q: "queue s = r # rest" by (cases "queue s") auto
  from assms have ps: "inv_promises s" and tm: "inv_timers s" by (simp_all add: inv_def)
  let ?s' = "evict cfg s"
  have eq: "?s' = s\<lparr>queue := rest,
             timers := filter (\<lambda>t. handle t \<noteq> timeout r) (timers s),
             settled := settled s @ [(promise r, Rejected QueueOverflow)]\<rparr>"
    using True q by (simp add: evict_eq[OF tm])
  have qf: "queue ?s' = filter (\<lambda>x. promise x \<noteq> promise r) (queue s)"
    using queue_promises_distinct[OF ps] unfolding eq q
    by (simp add: filter_head del: filter.simps)
  have tf: "timers ?s' = filter (\<lambda>t. handle t \<noteq> timeout r) (timers s)" by (simp add: eq)
  have rq: "r \<in> set (queue s)" by (simp add: q)
  note a = unique_remove[OF tm assms(2) rq qf tf]
  have b: "distinct (map promise (queue ?s') @ running ?s' @ map fst (settled ?s'))"
    using assms(2) q unfolding eq inv_unique_def by auto
  have c: "promise ` set (queue ?s') \<union> set (running ?s') \<union> fst ` set (settled ?s') =
             {..<next_promise ?s'}"
    using assms(2) q unfolding eq inv_unique_def by auto
  from a b c show ?thesis by (simp add: inv_unique_def)
qed

lemma unique_arm_and_insert:
  assumes "inv_unique s" "(ty, now, digits) \<notin> req_id ` set (queue s)"
  shows "inv_unique (arm_and_insert cfg ty now digits ts s)"
proof -
  let ?s' = "arm_and_insert cfg ty now digits ts s"
  have nq: "next_promise s \<notin> promise ` set (queue s)" "next_promise s \<notin> set (running s)"
    "next_promise s \<notin> fst ` set (settled s)"
    using assms(1) unfolding inv_unique_def by auto
  have a: "distinct (map req_id (queue ?s'))"
    using assms unfolding arm_and_insert_eq inv_unique_def
    by (simp add: distinct_map_insert_request)
  have b: "\<forall>x\<in>set (queue ?s'). \<exists>t\<in>set (timers ?s').
            handle t = timeout x \<and> timer_id t = req_id x \<and> timer_promise t = promise x"
    using assms(1) unfolding arm_and_insert_eq inv_unique_def by auto
  have c: "distinct (map promise (queue ?s') @ running ?s' @ map fst (settled ?s'))"
    using assms(1) nq unfolding arm_and_insert_eq inv_unique_def
    by (simp add: distinct_map_insert_request)
  have d: "promise ` set (queue ?s') \<union> set (running ?s') \<union> fst ` set (settled ?s') =
             {..<next_promise ?s'}"
    using assms(1) unfolding arm_and_insert_eq inv_unique_def by (auto simp: lessThan_Suc)
  from a b c d show ?thesis by (simp add: inv_unique_def)
qed

lemma unique_complete:
  assumes "inv_unique s" "p \<in> set (running s)" shows "inv_unique (complete p res s)"
proof -
  obtain x where eq: "complete p res s = s\<lparr>settled := settled s @ [(p, x)],
      processing := processing s - 1,
      callbacks := Suc (callbacks s), running := removeAll p (running s)\<rparr>"
    by (rule complete_eq)
  show ?thesis using assms unfolding eq inv_unique_def by (auto simp: distinct_removeAll)
qed

text \<open>The timeout callback finds the request of its timer.\<close>

lemma own_request:
  assumes "inv cfg s" "inv_unique s" "t \<in> set (timers s)"
  obtains r where "r \<in> set (queue s)" "timeout r = handle t" "req_id r = timer_id t"
    "promise r = timer_promise t"
    "filter (\<lambda>x. promise x \<noteq> timer_promise t) (queue s) =
       filter (\<lambda>x. req_id x \<noteq> timer_id t) (queue s)"
proof -
  from assms(1) have ps: "inv_promises s" and tm: "inv_timers s" by (simp_all add: inv_def)
  from request_of_timer[OF tm assms(3)] obtain r where r: "r \<in> set (queue s)"
    "timeout r = handle t" "req_id r = timer_id t" "promise r = timer_promise t" by blast
  from assms(2) have di: "distinct (map req_id (queue s))" by (simp add: inv_unique_def)
  from filter_by_other_key[OF queue_promises_distinct[OF ps] di r(1)] r
  have "filter (\<lambda>x. promise x \<noteq> timer_promise t) (queue s) =
       filter (\<lambda>x. req_id x \<noteq> timer_id t) (queue s)" by simp
  with r show thesis by (rule that)
qed

lemma onTimeout_eq:
  assumes "inv cfg s" "inv_unique s" "t \<in> set (timers s)"
  shows "onTimeout t s =
     s\<lparr>timers := filter (\<lambda>x. handle x \<noteq> handle t) (timers s),
       queue := filter (\<lambda>x. promise x \<noteq> timer_promise t) (queue s),
       settled := settled s @ [(timer_promise t, Rejected RequestTimeout)]\<rparr>"
proof -
  from assms(1) have ps: "inv_promises s" and tm: "inv_timers s" by (simp_all add: inv_def)
  obtain removed where rm: "removed \<in> set (queue s)" "req_id removed = timer_id t"
    and eq: "onTimeout t s =
       s\<lparr>timers := filter (\<lambda>x. handle x \<noteq> handle t \<and> handle x \<noteq> timeout removed) (timers s),
         queue := filter (\<lambda>x. promise x \<noteq> promise removed) (queue s),
         settled := settled s @ [(timer_promise t, Rejected RequestTimeout)]\<rparr>"
    by (rule onTimeout_cases[OF tm queue_promises_distinct[OF ps] assms(3)])
  obtain r where r: "r \<in> set (queue s)" "timeout r = handle t" "req_id r = timer_id t"
    "promise r = timer_promise t" by (rule own_request[OF assms])
  from assms(2) have "distinct (map req_id (queue s))" by (simp add: inv_unique_def)
  from unique_by_key[OF this rm(1) r(1)] rm(2) r(3) have "removed = r" by simp
  with eq r show ?thesis by simp
qed

lemma unique_onTimeout:
  assumes "inv cfg s" "inv_unique s" "t \<in> set (timers s)" shows "inv_unique (onTimeout t s)"
proof -
  from assms(1) have ps: "inv_promises s" and tm: "inv_timers s" by (simp_all add: inv_def)
  let ?s' = "onTimeout t s"
  note eq = onTimeout_eq[OF assms]
  obtain r where r: "r \<in> set (queue s)" "timeout r = handle t" "req_id r = timer_id t"
    "promise r = timer_promise t" by (rule own_request[OF assms])
  have qf: "queue ?s' = filter (\<lambda>x. promise x \<noteq> promise r) (queue s)" by (simp add: eq r)
  have tf: "timers ?s' = filter (\<lambda>t. handle t \<noteq> timeout r) (timers s)" by (simp add: eq r)
  note a = unique_remove[OF tm assms(2) r(1) qf tf]
  have m: "promise r \<in> promise ` set (queue s)" using r(1) by simp
  have b: "distinct (map promise (queue ?s') @ running ?s' @ map fst (settled ?s'))"
    using assms(2) m unfolding eq inv_unique_def r(4)[symmetric]
    by (auto simp: distinct_map_filter)
  have "promise ` set (filter (\<lambda>x. promise x \<noteq> promise r) (queue s)) =
          promise ` set (queue s) - {promise r}" by auto
  then have c: "promise ` set (queue ?s') \<union> set (running ?s') \<union> fst ` set (settled ?s') =
             {..<next_promise ?s'}"
    using assms(2) m unfolding eq inv_unique_def r(4)[symmetric] by auto
  from a b c show ?thesis by (simp add: inv_unique_def)
qed

lemma unique_callbacks_update [simp]: "inv_unique (s\<lparr>callbacks := c\<rparr>) = inv_unique s"
  by (simp add: inv_unique_def)

lemma unique_clock_update [simp]: "inv_unique (s\<lparr>clock := c\<rparr>) = inv_unique s"
  by (simp add: inv_unique_def)

lemma unique_step:
  assumes "inv cfg s" "inv_unique s" "\<not> collides cfg e s" "step cfg e s = Some s'"
  shows "inv_unique s'"
proof (cases e)
  case (Enqueue ty now digits ts)
  have 1: "inv_unique (evict cfg s)" "inv cfg (evict cfg s)"
    using assms(1,2) by (simp_all add: unique_evict inv_evict)
  from assms(3) Enqueue have "(ty, now, digits) \<notin> req_id ` set (queue (evict cfg s))" by simp
  from unique_arm_and_insert[OF 1(1) this]
  have "inv_unique (arm_and_insert cfg ty now digits ts (evict cfg s))" .
  moreover have "inv cfg (arm_and_insert cfg ty now digits ts (evict cfg s))"
    using 1(2) by (rule inv_arm_and_insert)
  ultimately show ?thesis using assms(4) Enqueue
    by (auto simp: step_def enqueue_def intro: unique_processQueue)
next
  case (Complete p res)
  with assms show ?thesis by (auto simp: step_def split: if_splits intro: unique_complete)
next
  case (Timeout h)
  with assms show ?thesis
    by (auto simp: step_def split: if_splits option.splits dest!: find_timer intro: unique_onTimeout)
next
  case Callback
  with assms show ?thesis by (auto simp: step_def split: if_splits intro!: unique_processQueue)
next
  case (Tick d)
  with assms show ?thesis by (auto simp: step_def)
qed

lemma unique_run:
  "inv cfg s \<Longrightarrow> inv_unique s \<Longrightarrow> fresh_ids cfg s es \<Longrightarrow> run cfg s es = Some s' \<Longrightarrow>
     inv_unique s'"
proof (induction es arbitrary: s)
  case Nil
  then show ?case by simp
next
  case (Cons e es)
  then obtain s1 where s1: "step cfg e s = Some s1" "run cfg s1 es = Some s'"
    by (auto split: option.splits)
  from Cons.prems(3) s1(1) have f: "\<not> collides cfg e s" "fresh_ids cfg s1 es" by simp_all
  from Cons.prems s1 f have "inv cfg s1" "inv_unique s1" by (auto intro: inv_step unique_step)
  with Cons.IH f(2) s1(2) show ?case by blast
qed

lemma reachable_unique:
  "run cfg init evs = Some s \<Longrightarrow> fresh_ids cfg init evs \<Longrightarrow> inv_unique s"
  using unique_run[OF inv_init unique_init] by blast

text \<open>Ids that are pairwise different never collide.\<close>

lemma queue_ids_step:
  assumes "step cfg e s = Some s'"
  shows "req_id ` set (queue s') \<subseteq> req_id ` set (queue s) \<union> set (ids [e])"
proof -
  have pq: "\<And>u. set (queue (processQueue cfg u)) \<subseteq> set (queue u)"
    by (auto simp: processQueue_def clearTimeout_def Let_def split: list.splits)
  have ev: "set (queue (evict cfg s)) \<subseteq> set (queue s)"
    by (auto simp: evict_def reject_def clearTimeout_def Let_def split: list.splits)
  have ot: "\<And>t. set (queue (onTimeout t s)) \<subseteq> set (queue s)"
    by (auto simp: onTimeout_def reject_def removeFromQueue_def clearTimeout_def Let_def
        split: option.splits dest: in_set_takeD in_set_dropD)
  show ?thesis
  proof (cases e)
    case (Enqueue ty now digits ts)
    have "set (queue (arm_and_insert cfg ty now digits ts (evict cfg s))) \<subseteq>
            insert \<lparr>req_id = (ty, now, digits), timestamp = ts, req_type = ty,
                     promise = next_promise (evict cfg s), timeout = next_handle (evict cfg s)\<rparr>
              (set (queue s))"
      using ev by (auto simp: arm_and_insert_eq)
    with pq[of "arm_and_insert cfg ty now digits ts (evict cfg s)"] assms Enqueue
    show ?thesis by (fastforce simp: step_def enqueue_def)
  next
    case (Complete p res)
    with assms show ?thesis
      by (cases res) (auto simp: step_def complete_def resolve_def reject_def split: if_splits)
  next
    case (Timeout h)
    with assms ot show ?thesis
      by (fastforce simp: step_def split: option.splits if_splits)
  next
    case Callback
    with assms pq[of "s\<lparr>callbacks := callbacks s - 1\<rparr>"] show ?thesis
      by (fastforce simp: step_def split: if_splits)
  next
    case (Tick d)
    with assms show ?thesis by (auto simp: step_def)
  qed
qed

lemma distinct_ids_fresh_from:
  "distinct (ids es) \<Longrightarrow> req_id ` set (queue s) \<inter> set (ids es) = {} \<Longrightarrow> fresh_ids cfg s es"
proof (induction es arbitrary: s)
  case Nil
  then show ?case by simp
next
  case (Cons e es)
  have ev: "set (queue (evict cfg s)) \<subseteq> set (queue s)"
    by (auto simp: evict_def reject_def clearTimeout_def Let_def split: list.splits)
  have c: "\<not> collides cfg e s"
  proof (cases e)
    case (Enqueue ty now digits ts)
    with Cons.prems(2) have "(ty, now, digits) \<notin> req_id ` set (queue s)" by auto
    with ev Enqueue show ?thesis by auto
  qed simp_all
  have d: "distinct (ids es)" "set (ids [e]) \<inter> set (ids es) = {}"
    "req_id ` set (queue s) \<inter> set (ids es) = {}"
    using Cons.prems by (cases e; auto)+
  have "\<And>s1. step cfg e s = Some s1 \<Longrightarrow> fresh_ids cfg s1 es"
  proof -
    fix s1 assume "step cfg e s = Some s1"
    from queue_ids_step[OF this] d(2,3) have "req_id ` set (queue s1) \<inter> set (ids es) = {}"
      by blast
    from Cons.IH[OF d(1) this] show "fresh_ids cfg s1 es" .
  qed
  with c show ?case by (auto split: option.splits)
qed

lemma distinct_ids_fresh: "distinct (ids evs) \<Longrightarrow> fresh_ids cfg init evs"
  by (rule distinct_ids_fresh_from) (simp_all add: init_def)

subsection \<open>Settlements\<close>

lemma running_started:
  assumes "inv cfg s"
  shows "set (running s) = promise ` set (started s) - fst ` {p \<in> set (settled s). ran (snd p)}"
proof -
  from assms have ps: "inv_promises s" and st: "inv_started s" by (simp_all add: inv_def)
  from ps have "set (running s) \<inter> fst ` {p \<in> set (settled s). ran (snd p)} = {}"
    unfolding inv_promises_def by auto
  moreover from st have "promise ` set (started s) =
      set (running s) \<union> fst ` {p \<in> set (settled s). ran (snd p)}"
    by (simp add: inv_started_def)
  ultimately show ?thesis by blast
qed



lemma settled_once:
  assumes "inv_unique s" "(i, x) \<in> set (settled s)"
  shows "filter (\<lambda>p. fst p = i) (settled s) = [(i, x)]"
proof -
  from assms(1) have "distinct (map fst (settled s))" by (simp add: inv_unique_def)
  from filter_single[OF this assms(2)] show ?thesis .
qed

lemma timer_promise_pending:
  "inv cfg s \<Longrightarrow> t \<in> set (timers s) \<Longrightarrow> timer_promise t \<in> promise ` set (queue s)"
proof -
  assume "inv cfg s" "t \<in> set (timers s)"
  then have "\<exists>r\<in>set (queue s). promise r = timer_promise t"
    using request_of_timer[of s t] by (auto simp: inv_def)
  then show ?thesis by force
qed

lemma settled_not_pending:
  assumes "inv cfg s" "inv_unique s" "(i, x) \<in> set (settled s)"
  shows "i \<notin> promise ` set (queue s) \<and> i \<notin> set (running s) \<and>
         (\<forall>t\<in>set (timers s). timer_promise t \<noteq> i)"
proof -
  from assms(3) have m: "i \<in> fst ` set (settled s)" by force
  with assms(2) have a: "i \<notin> promise ` set (queue s)" "i \<notin> set (running s)"
    unfolding inv_unique_def by auto
  with timer_promise_pending[OF assms(1)] show ?thesis by blast
qed

lemma started_iff_ran:
  assumes "inv cfg s" "inv_unique s" "(i, x) \<in> set (settled s)"
  shows "i \<in> promise ` set (started s) \<longleftrightarrow> ran x"
proof -
  from assms(1) have st: "inv_started s" by (simp add: inv_def)
  from settled_not_pending[OF assms] have nr: "i \<notin> set (running s)" by simp
  from assms(2) have d: "distinct (map fst (settled s))" by (simp add: inv_unique_def)
  have u: "\<And>y. (i, y) \<in> set (settled s) \<Longrightarrow> y = x"
    using d assms(3) by (meson eq_key_imp_eq_value)
  show ?thesis
  proof
    assume "i \<in> promise ` set (started s)"
    then obtain r where "r \<in> set (started s)" "promise r = i" by auto
    with started_promises[OF st, of r] nr obtain y where "(i, y) \<in> set (settled s)" "ran y"
      by auto
    with u[of y] show "ran x" by simp
  next
    assume "ran x"
    with assms(3) have "i \<in> fst ` {p \<in> set (settled s). ran (snd p)}" by force
    with st show "i \<in> promise ` set (started s)" unfolding inv_started_def by auto
  qed
qed

lemma started_not_pending:
  assumes "inv cfg s" "r \<in> set (started s)"
  shows "promise r \<notin> promise ` set (queue s) \<and>
         (\<forall>t\<in>set (timers s). timer_promise t \<noteq> promise r) \<and>
         (promise r, Rejected QueueOverflow) \<notin> set (settled s)"
proof -
  from assms(1) have ps: "inv_promises s" and st: "inv_started s" and ev: "inv_evicted s"
    by (simp_all add: inv_def)
  have a: "promise r \<notin> promise ` set (queue s)"
    using started_not_queued[OF ps st] assms(2) by (metis image_eqI imageE)
  have b: "\<forall>t\<in>set (timers s). timer_promise t \<noteq> promise r"
    using timer_promise_pending[OF assms(1)] a by metis
  have c: "(promise r, Rejected QueueOverflow) \<notin> set (settled s)"
  proof
    assume "(promise r, Rejected QueueOverflow) \<in> set (settled s)"
    with ev have "fst (promise r, Rejected QueueOverflow) \<notin> promise ` set (started s)"
      unfolding inv_evicted_def by fastforce
    with assms(2) show False by simp
  qed
  from a b c show ?thesis by simp
qed


lemma step_Timeout_armed:
  assumes "inv cfg s" "t \<in> set (timers s)"
  shows "step cfg (Timeout (handle t)) s =
           (if due t \<le> clock s then Some (onTimeout t s) else None)"
proof -
  from assms(1) have "distinct (map handle (timers s))" by (simp add: inv_def inv_timers_def)
  from find_armed[OF this assms(2)] show ?thesis by (simp add: step_def)
qed

lemma step_Timeout:
  assumes "inv cfg s" "inv_unique s" "t \<in> set (timers s)"
  shows "step cfg (Timeout (handle t)) s =
           (if due t \<le> clock s
            then Some (s\<lparr>timers := filter (\<lambda>x. handle x \<noteq> handle t) (timers s),
                         queue := filter (\<lambda>x. promise x \<noteq> timer_promise t) (queue s),
                         settled := settled s @ [(timer_promise t, Rejected RequestTimeout)]\<rparr>)
            else None)"
  by (simp add: step_Timeout_armed[OF assms(1,3)] onTimeout_eq[OF assms])

lemma step_Complete:
  assumes "i \<in> set (running s)"
  shows "\<exists>s'. step cfg (Complete i res) s = Some s' \<and>
      settled s' = settled s @ [(i, case res of Inr v \<Rightarrow> Resolved v | Inl e \<Rightarrow> Rejected (OperationFailure e))]"
  using assms by (cases res) (auto simp: step_def complete_def resolve_def reject_def)

subsection \<open>The length of the queue\<close>





subsection \<open>Progress\<close>

lemma onTimeout_fields:
  "processing (onTimeout t s) = processing s" "callbacks (onTimeout t s) = callbacks s"
  "started (onTimeout t s) = started s" "running (onTimeout t s) = running s"
  "next_promise (onTimeout t s) = next_promise s" "clock (onTimeout t s) = clock s"
  by (auto simp: onTimeout_def reject_def removeFromQueue_def clearTimeout_def Let_def
      split: option.splits)

lemma queue_onTimeout_empty: "queue s = [] \<Longrightarrow> queue (onTimeout t s) = []"
  by (simp add: onTimeout_def reject_def removeFromQueue_def clearTimeout_def)

lemma progress_step:
  assumes "inv cfg s" "inv_progress cfg s" "step cfg e s = Some s'"
  shows "inv_progress cfg s'"
proof (cases e)
  case (Enqueue ty now digits ts)
  let ?s1 = "evict cfg s"
  let ?s2 = "arm_and_insert cfg ty now digits ts ?s1"
  from assms(1) have tm: "inv_timers s" by (simp add: inv_def)
  have tm2: "inv_timers ?s2" using assms(1) inv_evict inv_arm_and_insert by (simp add: inv_def)
  have e1: "processing ?s1 = processing s" "callbacks ?s1 = callbacks s"
    "queue ?s1 \<noteq> [] \<Longrightarrow> queue s \<noteq> []"
    by (auto simp: evict_eq[OF tm])
  have e2: "processing ?s2 = processing s" "callbacks ?s2 = callbacks s"
    "length (queue ?s2) = Suc (length (queue ?s1))"
    by (simp_all add: arm_and_insert_eq e1)
  have "inv_progress cfg (processQueue cfg ?s2)"
  proof (cases "int (MAX_CONCURRENT cfg) \<le> processing s")
    case True
    then show ?thesis by (simp add: processQueue_eq[OF tm2] e2 inv_progress_def)
  next
    case False
    from e2(3) have ne: "queue ?s2 \<noteq> []" by auto
    have "queue (processQueue cfg ?s2) \<noteq> [] \<Longrightarrow> queue s \<noteq> []"
    proof -
      assume "queue (processQueue cfg ?s2) \<noteq> []"
      with False ne have "tl (queue ?s2) \<noteq> []" by (simp add: processQueue_eq[OF tm2] e2)
      then have "1 < length (queue ?s2)" by (cases "queue ?s2") auto
      with e2(3) have "queue ?s1 \<noteq> []" by auto
      then show "queue s \<noteq> []" by (rule e1(3))
    qed
    with assms(2) False ne show ?thesis
      by (auto simp: processQueue_eq[OF tm2] e2 inv_progress_def)
  qed
  with assms(3) Enqueue show ?thesis by (simp add: step_def enqueue_def)
next
  case (Complete p res)
  with assms show ?thesis
    by (cases res) (auto simp: step_def inv_progress_def complete_def resolve_def reject_def split: if_splits)
next
  case (Timeout h)
  have "\<And>t. inv_progress cfg (onTimeout t s)"
    using assms(2) queue_onTimeout_empty[of s] by (auto simp: inv_progress_def onTimeout_fields)
  with Timeout assms show ?thesis
    by (auto simp: step_def split: if_splits option.splits)
next
  case Callback
  define s0 where "s0 = s\<lparr>callbacks := callbacks s - 1\<rparr>"
  have tm: "inv_timers s0" using assms(1) by (simp add: s0_def inv_def inv_timers_def)
  from assms(3) Callback have c: "0 < callbacks s" and s': "s' = processQueue cfg s0"
    by (auto simp: step_def s0_def split: if_splits)
  have f: "queue s0 = queue s" "processing s0 = processing s" "callbacks s0 = callbacks s - 1"
    by (simp_all add: s0_def)
  show ?thesis using assms(2) c unfolding s' inv_progress_def
    by (cases "queue s") (auto simp: processQueue_eq[OF tm] f)
next
  case (Tick d)
  with assms show ?thesis by (auto simp: step_def inv_progress_def)
qed

lemma progress_run:
  "inv cfg s \<Longrightarrow> inv_progress cfg s \<Longrightarrow> run cfg s es = Some s' \<Longrightarrow> inv_progress cfg s'"
proof (induction es arbitrary: s)
  case Nil
  then show ?case by simp
next
  case (Cons e es)
  then obtain s1 where s1: "step cfg e s = Some s1" "run cfg s1 es = Some s'"
    by (auto split: option.splits)
  from Cons.prems s1 have "inv cfg s1" "inv_progress cfg s1" by (auto intro: inv_step progress_step)
  with Cons.IH s1 show ?case by blast
qed

lemma reachable_progress: "run cfg init evs = Some s \<Longrightarrow> inv_progress cfg s"
proof -
  assume r: "run cfg init evs = Some s"
  have "inv_progress cfg init" by (simp add: inv_progress_def init_def)
  from progress_run[OF inv_init this r] show ?thesis .
qed

subsection \<open>Due times\<close>

lemma timers_processQueue:
  "set (timers (processQueue cfg s)) \<subseteq> set (timers s) \<and> clock (processQueue cfg s) = clock s"
  by (auto simp: processQueue_def clearTimeout_def Let_def split: list.splits)

lemma timers_evict:
  "set (timers (evict cfg s)) \<subseteq> set (timers s) \<and> clock (evict cfg s) = clock s"
  by (auto simp: evict_def reject_def clearTimeout_def Let_def split: list.splits)

lemma timers_onTimeout:
  "set (timers (onTimeout t s)) \<subseteq> set (timers s) \<and> clock (onTimeout t s) = clock s"
  by (auto simp: onTimeout_def reject_def removeFromQueue_def clearTimeout_def Let_def
      split: option.splits)

lemma timers_complete:
  "timers (complete p res s) = timers s \<and> clock (complete p res s) = clock s"
  by (cases res) (simp_all add: complete_def resolve_def reject_def)

lemma due_subset:
  "inv_due cfg s \<Longrightarrow> set (timers s') \<subseteq> set (timers s) \<and> clock s' = clock s \<Longrightarrow> inv_due cfg s'"
  by (auto simp: inv_due_def)

lemma due_step:
  assumes "inv_due cfg s" "step cfg e s = Some s'"
  shows "inv_due cfg s'"
proof (cases e)
  case (Enqueue ty now digits ts)
  have "inv_due cfg (evict cfg s)" using assms(1) timers_evict by (rule due_subset)
  then have "inv_due cfg (arm_and_insert cfg ty now digits ts (evict cfg s))"
    by (auto simp: arm_and_insert_eq inv_due_def)
  then have "inv_due cfg (processQueue cfg (arm_and_insert cfg ty now digits ts (evict cfg s)))"
    using timers_processQueue by (rule due_subset)
  with assms(2) Enqueue show ?thesis by (simp add: step_def enqueue_def)
next
  case (Complete p res)
  have "set (timers (complete p res s)) \<subseteq> set (timers s) \<and> clock (complete p res s) = clock s"
    by (simp add: timers_complete)
  from due_subset[OF assms(1) this] assms(2) Complete show ?thesis
    by (auto simp: step_def split: if_splits)
next
  case (Timeout h)
  with assms due_subset[OF assms(1) timers_onTimeout] show ?thesis
    by (auto simp: step_def split: option.splits if_splits)
next
  case Callback
  have "inv_due cfg (s\<lparr>callbacks := callbacks s - 1\<rparr>)" using assms(1) by (simp add: inv_due_def)
  from due_subset[OF this timers_processQueue] assms(2) Callback show ?thesis
    by (auto simp: step_def split: if_splits)
next
  case (Tick d)
  with assms show ?thesis by (fastforce simp: step_def inv_due_def)
qed

lemma due_run: "inv_due cfg s \<Longrightarrow> run cfg s es = Some s' \<Longrightarrow> inv_due cfg s'"
  by (induction es arbitrary: s) (auto split: option.splits dest: due_step)

lemma reachable_due: "run cfg init evs = Some s \<Longrightarrow> inv_due cfg s"
proof -
  assume r: "run cfg init evs = Some s"
  have "inv_due cfg init" by (simp add: inv_due_def init_def)
  from due_run[OF this r] show ?thesis .
qed

subsection \<open>The order of starts\<close>

text \<open>The timeout callback leaves the other pending requests in their order.\<close>

lemma queue_onTimeout_filter:
  assumes "inv cfg s" "t \<in> set (timers s)"
  obtains P where "queue (onTimeout t s) = filter P (queue s)"
proof -
  from assms(1) have ps: "inv_promises s" and tm: "inv_timers s" by (simp_all add: inv_def)
  obtain removed where "removed \<in> set (queue s)" "req_id removed = timer_id t"
    "onTimeout t s =
       s\<lparr>timers := filter (\<lambda>x. handle x \<noteq> handle t \<and> handle x \<noteq> timeout removed) (timers s),
         queue := filter (\<lambda>x. promise x \<noteq> promise removed) (queue s),
         settled := settled s @ [(timer_promise t, Rejected RequestTimeout)]\<rparr>"
    by (rule onTimeout_cases[OF tm queue_promises_distinct[OF ps] assms(2)])
  then have "queue (onTimeout t s) = filter (\<lambda>x. promise x \<noteq> promise removed) (queue s)"
    by simp
  then show thesis by (rule that)
qed

lemma order_processQueue:
  assumes "inv cfg s" "inv_order s" shows "inv_order (processQueue cfg s)"
proof -
  from assms have tm: "inv_timers s" by (simp add: inv_def)
  show ?thesis using assms(2)
    by (cases "queue s") (auto simp: processQueue_eq[OF tm] inv_order_def)
qed

lemma order_evict:
  assumes "inv cfg s" "inv_order s" shows "inv_order (evict cfg s)"
proof -
  from assms have tm: "inv_timers s" by (simp add: inv_def)
  show ?thesis using assms(2)
    by (cases "queue s") (auto simp: evict_eq[OF tm] inv_order_def sorted_wrt_append)
qed

lemma order_arm_and_insert:
  assumes "inv cfg s" "inv_order s" shows "inv_order (arm_and_insert cfg ty now digits ts s)"
proof -
  from assms have ps: "inv_promises s" and st: "inv_started s" and so: "inv_sorted s"
    by (simp_all add: inv_def)
  let ?r = "\<lparr>req_id = (ty, now, digits), timestamp = ts, req_type = ty,
             promise = next_promise s, timeout = next_handle s\<rparr>"
  have fresh: "\<forall>x\<in>set (queue s). promise x < promise ?r" using ps unfolding inv_promises_def by auto
  have fresh': "\<forall>x\<in>set (started s). promise x < promise ?r"
    using started_promise_bound[OF ps st] by simp
  from sorted_insert_request[OF _ fresh] so have "sorted_wrt before (insert_request ?r (queue s))"
    by (simp add: inv_sorted_def)
  then have a: "sorted_wrt no_overtake (insert_request ?r (queue s))"
    by (rule sorted_wrt_mono_rel') (rule before_no_overtake)
  have b: "\<forall>x\<in>set (started s). \<forall>y\<in>set (insert_request ?r (queue s)). no_overtake x y"
    using assms(2) fresh' by (auto simp: inv_order_def sorted_wrt_append no_overtake_def)
  show ?thesis using assms(2) a b
    by (simp add: arm_and_insert_eq inv_order_def sorted_wrt_append)
qed

lemma order_onTimeout:
  assumes "inv cfg s" "inv_order s" "t \<in> set (timers s)" shows "inv_order (onTimeout t s)"
proof -
  obtain P where "queue (onTimeout t s) = filter P (queue s)"
    by (rule queue_onTimeout_filter[OF assms(1,3)])
  then show ?thesis using assms(2)
    by (auto simp: onTimeout_fields inv_order_def sorted_wrt_append sorted_wrt_filter)
qed

lemma order_complete: "inv_order (complete p res s) = inv_order s"
  by (cases res) (simp_all add: complete_def resolve_def reject_def inv_order_def)

lemma order_step:
  assumes "inv cfg s" "inv_order s" "step cfg e s = Some s'" shows "inv_order s'"
proof (cases e)
  case (Enqueue ty now digits ts)
  have "inv_order (evict cfg s)" "inv cfg (evict cfg s)" using assms by (simp_all add: order_evict inv_evict)
  then have "inv_order (arm_and_insert cfg ty now digits ts (evict cfg s))"
    "inv cfg (arm_and_insert cfg ty now digits ts (evict cfg s))"
    by (simp_all add: order_arm_and_insert inv_arm_and_insert)
  then show ?thesis using assms(3) Enqueue by (auto simp: step_def enqueue_def intro: order_processQueue)
next
  case (Complete p res)
  with assms show ?thesis by (auto simp: step_def order_complete split: if_splits)
next
  case (Timeout h)
  with assms show ?thesis
    by (auto simp: step_def split: if_splits option.splits dest!: find_timer intro: order_onTimeout)
next
  case Callback
  have "inv_order (s\<lparr>callbacks := callbacks s - 1\<rparr>)" using assms(2) by (simp add: inv_order_def)
  with assms Callback show ?thesis by (auto simp: step_def split: if_splits intro!: order_processQueue)
next
  case (Tick d)
  with assms show ?thesis by (auto simp: step_def inv_order_def)
qed

lemma order_run: "inv cfg s \<Longrightarrow> inv_order s \<Longrightarrow> run cfg s es = Some s' \<Longrightarrow> inv_order s'"
proof (induction es arbitrary: s)
  case Nil
  then show ?case by simp
next
  case (Cons e es)
  then obtain s1 where s1: "step cfg e s = Some s1" "run cfg s1 es = Some s'"
    by (auto split: option.splits)
  from Cons.prems s1 have "inv cfg s1" "inv_order s1" by (auto intro: inv_step order_step)
  with Cons.IH s1 show ?case by blast
qed

lemma reachable_order: "run cfg init evs = Some s \<Longrightarrow> inv_order s"
proof -
  assume r: "run cfg init evs = Some s"
  have "inv_order init" by (simp add: inv_order_def init_def)
  from order_run[OF inv_init this r] show ?thesis .
qed

lemma mono_processQueue:
  assumes "inv cfg s" "inv_mono s fut" shows "inv_mono (processQueue cfg s) fut"
proof -
  from assms have tm: "inv_timers s" by (simp add: inv_def)
  show ?thesis using assms(2)
    by (cases "queue s") (auto simp: processQueue_eq[OF tm] inv_mono_def)
qed

lemma mono_evict:
  assumes "inv cfg s" "inv_mono s fut" shows "inv_mono (evict cfg s) fut"
proof -
  from assms have tm: "inv_timers s" by (simp add: inv_def)
  show ?thesis using assms(2)
    by (cases "queue s") (auto simp: evict_eq[OF tm] inv_mono_def sorted_append)
qed

lemma mono_arm_and_insert:
  assumes "inv_mono s (ts # fut)" shows "inv_mono (arm_and_insert cfg ty now digits ts s) fut"
proof -
  let ?r = "\<lparr>req_id = (ty, now, digits), timestamp = ts, req_type = ty,
             promise = next_promise s, timeout = next_handle s\<rparr>"
  from assms have le: "\<forall>x\<in>set (started s @ queue s). timestamp x \<le> ts"
    and so: "sorted (map timestamp (started s @ queue s))"
    and fut: "sorted (ts # fut)" "\<forall>r\<in>set (started s @ queue s). \<forall>t\<in>set fut. timestamp r \<le> t"
    by (auto simp: inv_mono_def)
  have "insert_request ?r (queue s) = queue s @ [?r]"
    using le by (intro insert_request_latest) simp
  then have q: "queue (arm_and_insert cfg ty now digits ts s) = queue s @ [?r]"
    and st: "started (arm_and_insert cfg ty now digits ts s) = started s"
    by (simp_all add: arm_and_insert_eq)
  have "sorted (map timestamp ((started s @ queue s) @ [?r]))"
    using so le by (simp only: map_append sorted_append) auto
  then show ?thesis using fut unfolding inv_mono_def q st by auto
qed

lemma mono_onTimeout:
  assumes "inv cfg s" "inv_mono s fut" "t \<in> set (timers s)"
  shows "inv_mono (onTimeout t s) fut"
proof -
  obtain P where q: "queue (onTimeout t s) = filter P (queue s)"
    by (rule queue_onTimeout_filter[OF assms(1,3)])
  have "sorted (map timestamp (queue s)) \<Longrightarrow> sorted (map timestamp (filter P (queue s)))"
    by (simp add: sorted_map sorted_wrt_filter)
  then show ?thesis using assms(2)
    by (auto simp: q onTimeout_fields inv_mono_def sorted_append)
qed

lemma mono_complete: "inv_mono (complete p res s) fut = inv_mono s fut"
  by (cases res) (simp_all add: complete_def resolve_def reject_def inv_mono_def)

lemma mono_step:
  assumes "inv cfg s" "inv_mono s (stamps (e # es))" "step cfg e s = Some s'"
  shows "inv_mono s' (stamps es)"
proof (cases e)
  case (Enqueue ty now digits ts)
  with assms(2) have "inv_mono s (ts # stamps es)" by simp
  with assms(1) have "inv_mono (evict cfg s) (ts # stamps es)" by (simp add: mono_evict)
  then have "inv_mono (arm_and_insert cfg ty now digits ts (evict cfg s)) (stamps es)"
    by (rule mono_arm_and_insert)
  moreover have "inv cfg (arm_and_insert cfg ty now digits ts (evict cfg s))"
    using assms(1) by (simp add: inv_evict inv_arm_and_insert)
  ultimately show ?thesis using assms(3) Enqueue
    by (auto simp: step_def enqueue_def intro: mono_processQueue)
next
  case (Complete p res)
  with assms show ?thesis by (auto simp: step_def mono_complete split: if_splits)
next
  case (Timeout h)
  with assms show ?thesis
    by (auto simp: step_def split: if_splits option.splits dest!: find_timer intro: mono_onTimeout)
next
  case Callback
  have "inv_mono (s\<lparr>callbacks := callbacks s - 1\<rparr>) (stamps es)"
    using assms(2) Callback by (simp add: inv_mono_def)
  with assms Callback show ?thesis by (auto simp: step_def split: if_splits intro!: mono_processQueue)
next
  case (Tick d)
  with assms show ?thesis by (auto simp: step_def inv_mono_def)
qed

lemma mono_run:
  "inv cfg s \<Longrightarrow> inv_mono s (stamps es) \<Longrightarrow> run cfg s es = Some s' \<Longrightarrow> inv_mono s' []"
proof (induction es arbitrary: s)
  case Nil
  then show ?case by simp
next
  case (Cons e es)
  then obtain s1 where s1: "step cfg e s = Some s1" "run cfg s1 es = Some s'"
    by (auto split: option.splits)
  from Cons.prems s1 have "inv cfg s1" "inv_mono s1 (stamps es)" by (auto intro: inv_step mono_step)
  with Cons.IH s1 show ?case by blast
qed

subsection \<open>Overflow failures\<close>





subsection \<open>The like operation\<close>

lemma attempt_null:
  assumes "attempt b n = (res, calls)"
    and "CheckCall True \<in> set calls \<or> (\<exists>e. is_duplicate e \<and> AddLikeCall (RpcReply (Some e)) \<in> set calls)"
  shows "res = Inr VNull"
  using assms
  by (auto simp: attempt_def split: sum.splits if_splits rpc_reply.splits option.splits fetch_reply.splits)

lemma attempt_retry_calls:
  assumes "attempt b n = (Inl err, calls)"
  shows "CheckCall True \<notin> set calls \<and> (\<forall>e. is_duplicate e \<longrightarrow> AddLikeCall (RpcReply (Some e)) \<notin> set calls)"
  using assms
  by (auto simp: attempt_def split: sum.splits if_splits rpc_reply.splits option.splits fetch_reply.splits)

lemma like_loop_null:
  assumes "like_loop b n = (res, calls)"
    and "CheckCall True \<in> set calls \<or> (\<exists>e. is_duplicate e \<and> AddLikeCall (RpcReply (Some e)) \<in> set calls)"
  shows "res = Inr VNull"
  using assms
proof (induction b n arbitrary: res calls rule: like_loop.induct)
  case (1 b retryCount)
  show ?case
  proof (cases "retryCount < maxRetries")
    case False
    with "1.prems" show ?thesis by (simp add: like_loop.simps[of b retryCount])
  next
    case True
    obtain r c where a: "attempt b retryCount = (r, c)" by (cases "attempt b retryCount")
    show ?thesis
    proof (cases r)
      case (Inr v)
      with True a "1.prems"(1) have "res = Inr v" "calls = c"
        by (simp_all add: like_loop.simps[of b retryCount])
      with attempt_null[OF a] "1.prems"(2) Inr show ?thesis by simp
    next
      case (Inl err)
      note nc = attempt_retry_calls[OF a[unfolded Inl]]
      show ?thesis
      proof (cases "maxRetries \<le> Suc retryCount")
        case last: True
        with True a Inl "1.prems"(1) have "calls = c"
          by (simp add: like_loop.simps[of b retryCount])
        with nc "1.prems"(2) show ?thesis by blast
      next
        case more: False
        obtain r' c' where l: "like_loop b (Suc retryCount) = (r', c')"
          by (cases "like_loop b (Suc retryCount)")
        with True a Inl more "1.prems"(1) have e: "res = r'" "calls = c @ c'"
          by (simp_all add: like_loop.simps[of b retryCount])
        with nc "1.prems"(2)
        have "CheckCall True \<in> set c' \<or> (\<exists>e. is_duplicate e \<and> AddLikeCall (RpcReply (Some e)) \<in> set c')"
          by auto
        from "1.IH"[OF True a[symmetric] Inl more l this] e show ?thesis by simp
      qed
    qed
  qed
qed

lemma already_liked_gives_null:
  assumes "internalLikeContentItem b = (res, calls)"
    and "CheckCall True \<in> set calls \<or> (\<exists>e. is_duplicate e \<and> AddLikeCall (RpcReply (Some e)) \<in> set calls)"
  shows "res = Inr VNull"
proof (cases "checkIfLiked (pre_check b)")
  case (Inl e)
  with assms show ?thesis by (simp add: internalLikeContentItem_def)
next
  case (Inr alreadyLiked)
  show ?thesis
  proof (cases alreadyLiked)
    case True
    with Inr assms show ?thesis by (simp add: internalLikeContentItem_def)
  next
    case False
    obtain r c where l: "like_loop b 0 = (r, c)" by (cases "like_loop b 0")
    with Inr False assms(1) have e: "res = r" "calls = CheckCall False # c"
      by (simp_all add: internalLikeContentItem_def)
    with assms(2) have "CheckCall True \<in> set c \<or> (\<exists>e. is_duplicate e \<and> AddLikeCall (RpcReply (Some e)) \<in> set c)"
      by auto
    from like_loop_null[OF l this] e show ?thesis by simp
  qed
qed

subsection \<open>Bursts of submissions\<close>








text \<open>When the timestamp of a submission goes back, the burst evicts other requests: with
  the timestamps of \<open>burst_stamped_back\<close>, the fourth submission and the ninth.\<close>

lemma stamped_back_burst:
  "stamps burst_stamped_back = [0, 0, 0, 1, 2, 3, 4, 5, 0, 6] \<and>
   map_option overflowed (run queue_of_five init burst_stamped_back) = Some [3, 8]"
  by (simp add: burst_stamped_back_def sched_defs init_def queue_of_five_def overflowed_def)


section \<open>The claims\<close>

subsection \<open>Every request is settled exactly once\<close>

text \<open>
  C1 as stated does not hold. The timeout callback of a request removes from the queue the
  first request that has its id, and the id, composed from the type, the clock and random
  digits, may be the id of another pending request. In the run \<open>same_id_drained\<close> the second
  and the third submission have the same id and the third stands first in the queue. When
  the timer of the second fires, the callback removes the third request, disarms its timer
  and rejects the promise of the second, promise 1. The second request stays in the queue,
  and its operation is started and returns later. At the end nothing is pending, armed or
  awaited: promise 2 has never been settled, and promise 1 has been settled twice.
\<close>

theorem settled_exactly_once_counterexample:
  "map_option settled (run small_config init same_id_drained) =
     Some [(1, Rejected RequestTimeout), (0, Resolved VNull), (1, Resolved VNull)] \<and>
   map_option next_promise (run small_config init same_id_drained) = Some 3 \<and>
   map_option queue (run small_config init same_id_drained) = Some [] \<and>
   map_option timers (run small_config init same_id_drained) = Some [] \<and>
   map_option running (run small_config init same_id_drained) = Some [] \<and>
   map_option callbacks (run small_config init same_id_drained) = Some 0 \<and>
   ids same_id_drained = [(Like, 0, ''a''), (Like, 1, ''b''), (Like, 1, ''b'')] \<and>
   \<not> fresh_ids small_config init same_id_drained"
  by (simp add: same_id_drained_def same_id_fired_def sched_defs init_def small_config_def)

text \<open>
  C1, as the code has it: in a run in which no submission composes the id of a request that
  is pending at that moment (\<open>fresh_ids\<close>; lemma \<open>distinct_ids_fresh\<close>: in particular when
  the ids of the run are pairwise different). In every state of such a run each promise
  issued is in exactly one of three places: settled, pending in the queue, or awaited. The
  log of settlements never names a promise twice, and no operation is started twice; a
  promise is settled by its operation's return or throw if and only if the operation was
  started, and by the queue-overflow or the timeout error otherwise. A pending request has
  its timer armed, and when the timer fires its promise is rejected with the timeout error;
  an awaited promise is settled when its operation returns or throws. So when no timer is
  armed and no operation is awaited, every promise has been settled, once. And pending
  requests are not forgotten by the admission: while the queue is not empty, every slot is
  taken by a running operation or by a \<open>processQueue\<close> callback that is still to run.
\<close>

theorem settled_exactly_once:
  assumes "run cfg init evs = Some s" and "fresh_ids cfg init evs"
  shows "distinct (map fst (settled s)) \<and>
         distinct (map promise (started s)) \<and>
         (\<forall>i<next_promise s.
            (i \<in> fst ` set (settled s) \<and> i \<notin> promise ` set (queue s) \<and> i \<notin> set (running s)) \<or>
            (i \<notin> fst ` set (settled s) \<and> i \<in> promise ` set (queue s) \<and> i \<notin> set (running s)) \<or>
            (i \<notin> fst ` set (settled s) \<and> i \<notin> promise ` set (queue s) \<and> i \<in> set (running s))) \<and>
         (\<forall>p\<in>set (settled s).
            fst p < next_promise s \<and>
            filter (\<lambda>x. fst x = fst p) (settled s) = [p] \<and>
            (fst p \<in> promise ` set (started s) \<longleftrightarrow> ran (snd p))) \<and>
         (\<forall>r\<in>set (queue s). \<exists>t\<in>set (timers s).
            handle t = timeout r \<and> timer_id t = req_id r \<and> timer_promise t = promise r \<and>
            (due t \<le> clock s \<longrightarrow>
               (\<exists>s'. step cfg (Timeout (timeout r)) s = Some s' \<and>
                     settled s' = settled s @ [(promise r, Rejected RequestTimeout)]))) \<and>
         (\<forall>i\<in>set (running s). \<forall>res. \<exists>s'.
            step cfg (Complete i res) s = Some s' \<and>
            settled s' = settled s @
              [(i, case res of Inr v \<Rightarrow> Resolved v | Inl e \<Rightarrow> Rejected (OperationFailure e))]) \<and>
         (timers s = [] \<and> running s = [] \<longrightarrow> fst ` set (settled s) = {..<next_promise s}) \<and>
         (queue s \<noteq> [] \<longrightarrow> int (MAX_CONCURRENT cfg) \<le> processing s + int (callbacks s))"
proof -
  have i: "inv cfg s" using assms(1) by (rule reachable_inv)
  have un: "inv_unique s" using assms by (rule reachable_unique)
  have 7: "queue s \<noteq> [] \<longrightarrow> int (MAX_CONCURRENT cfg) \<le> processing s + int (callbacks s)"
    using reachable_progress[OF assms(1)] by (simp add: inv_progress_def)
  have 1: "distinct (map fst (settled s))" using un by (simp add: inv_unique_def)
  have 0: "distinct (map promise (started s))" using i by (simp add: inv_def inv_started_def)
  have 2: "\<forall>i<next_promise s.
            (i \<in> fst ` set (settled s) \<and> i \<notin> promise ` set (queue s) \<and> i \<notin> set (running s)) \<or>
            (i \<notin> fst ` set (settled s) \<and> i \<in> promise ` set (queue s) \<and> i \<notin> set (running s)) \<or>
            (i \<notin> fst ` set (settled s) \<and> i \<notin> promise ` set (queue s) \<and> i \<in> set (running s))"
  proof (intro allI impI)
    fix i assume "i < next_promise s"
    with un have "i \<in> promise ` set (queue s) \<union> set (running s) \<union> fst ` set (settled s)"
      by (simp add: inv_unique_def)
    moreover from un have "promise ` set (queue s) \<inter> set (running s) = {}"
      "promise ` set (queue s) \<inter> fst ` set (settled s) = {}"
      "set (running s) \<inter> fst ` set (settled s) = {}"
      by (auto simp: inv_unique_def)
    ultimately show "(i \<in> fst ` set (settled s) \<and> i \<notin> promise ` set (queue s) \<and> i \<notin> set (running s)) \<or>
            (i \<notin> fst ` set (settled s) \<and> i \<in> promise ` set (queue s) \<and> i \<notin> set (running s)) \<or>
            (i \<notin> fst ` set (settled s) \<and> i \<notin> promise ` set (queue s) \<and> i \<in> set (running s))"
      by blast
  qed
  have 3: "\<forall>p\<in>set (settled s).
            fst p < next_promise s \<and>
            filter (\<lambda>x. fst x = fst p) (settled s) = [p] \<and>
            (fst p \<in> promise ` set (started s) \<longleftrightarrow> ran (snd p))"
  proof
    fix p assume p: "p \<in> set (settled s)"
    then have m: "(fst p, snd p) \<in> set (settled s)" by simp
    from p i have "fst p < next_promise s" by (simp add: inv_def inv_promises_def)
    with settled_once[OF un m] started_iff_ran[OF i un m]
    show "fst p < next_promise s \<and>
            filter (\<lambda>x. fst x = fst p) (settled s) = [p] \<and>
            (fst p \<in> promise ` set (started s) \<longleftrightarrow> ran (snd p))" by simp
  qed
  have 4: "\<forall>r\<in>set (queue s). \<exists>t\<in>set (timers s).
            handle t = timeout r \<and> timer_id t = req_id r \<and> timer_promise t = promise r \<and>
            (due t \<le> clock s \<longrightarrow>
               (\<exists>s'. step cfg (Timeout (timeout r)) s = Some s' \<and>
                     settled s' = settled s @ [(promise r, Rejected RequestTimeout)]))"
  proof
    fix r assume "r \<in> set (queue s)"
    from timer_of_request[OF un this] obtain t where
      t: "t \<in> set (timers s)" "handle t = timeout r" "timer_id t = req_id r"
        "timer_promise t = promise r" by blast
    have "due t \<le> clock s \<longrightarrow>
               (\<exists>s'. step cfg (Timeout (timeout r)) s = Some s' \<and>
                     settled s' = settled s @ [(promise r, Rejected RequestTimeout)])"
      using step_Timeout_armed[OF i t(1)] t(2,4) by (simp add: settled_onTimeout)
    with t show "\<exists>t\<in>set (timers s).
            handle t = timeout r \<and> timer_id t = req_id r \<and> timer_promise t = promise r \<and>
            (due t \<le> clock s \<longrightarrow>
               (\<exists>s'. step cfg (Timeout (timeout r)) s = Some s' \<and>
                     settled s' = settled s @ [(promise r, Rejected RequestTimeout)]))"
      by blast
  qed
  have 5: "\<forall>i\<in>set (running s). \<forall>res. \<exists>s'.
            step cfg (Complete i res) s = Some s' \<and>
            settled s' = settled s @
              [(i, case res of Inr v \<Rightarrow> Resolved v | Inl e \<Rightarrow> Rejected (OperationFailure e))]"
    using step_Complete by blast
  have 6: "timers s = [] \<and> running s = [] \<longrightarrow> fst ` set (settled s) = {..<next_promise s}"
  proof
    assume a: "timers s = [] \<and> running s = []"
    have "queue s = []"
    proof (cases "queue s")
      case (Cons r rest)
      with timer_of_request[OF un, of r] a show ?thesis by simp
    qed simp
    with a un show "fst ` set (settled s) = {..<next_promise s}" by (simp add: inv_unique_def)
  qed
  from 0 1 2 3 4 5 6 7 show ?thesis by blast
qed

theorem settled_exactly_once_witness:
  "fresh_ids small_config init four_ways \<and>
   map_option settled (run small_config init four_ways) =
     Some [(1, Rejected QueueOverflow), (2, Rejected RequestTimeout),
           (0, Resolved (VData ''item'')), (3, Rejected (OperationFailure (ThrownExn ''network'')))] \<and>
   (\<exists>s. run small_config init four_ways = Some s \<and> timers s = [] \<and> running s = [] \<and>
        next_promise s = 4 \<and> distinct (map fst (settled s)) \<and> fst ` set (settled s) = {..<4}) \<and>
   fresh_ids small_config init pending_and_due \<and>
   map_option (map promise \<circ> queue) (run small_config init pending_and_due) = Some [2, 3] \<and>
   map_option running (run small_config init pending_and_due) = Some [0] \<and>
   (\<exists>s. run small_config init pending_and_due = Some s \<and>
        int (MAX_CONCURRENT small_config) \<le> processing s + int (callbacks s) \<and>
        (\<exists>s'. step small_config (Timeout 3) s = Some s' \<and>
              settled s' = settled s @ [(2, Rejected RequestTimeout)]) \<and>
        (\<exists>s'. step small_config (Complete 0 (Inl (ThrownExn ''network''))) s = Some s' \<and>
              settled s' = settled s @ [(0, Rejected (OperationFailure (ThrownExn ''network'')))]))"
proof -
  have f: "fresh_ids small_config init four_ways"
    by (simp add: four_ways_def sched_defs init_def small_config_def)
  have r: "run small_config init four_ways \<noteq> None"
    by (simp add: four_ways_def sched_defs init_def small_config_def)
  then obtain s where s: "run small_config init four_ways = Some s" by blast
  have v: "map_option settled (run small_config init four_ways) =
     Some [(1, Rejected QueueOverflow), (2, Rejected RequestTimeout),
           (0, Resolved (VData ''item'')), (3, Rejected (OperationFailure (ThrownExn ''network'')))]"
    "map_option timers (run small_config init four_ways) = Some []"
    "map_option running (run small_config init four_ways) = Some []"
    "map_option next_promise (run small_config init four_ways) = Some 4"
    by (simp_all add: four_ways_def sched_defs init_def small_config_def)
  with s have e: "timers s = []" "running s = []" "next_promise s = 4" by auto
  from settled_exactly_once[OF s f] e
  have "distinct (map fst (settled s)) \<and> fst ` set (settled s) = {..<4}" by simp
  with s e have a: "\<exists>s. run small_config init four_ways = Some s \<and> timers s = [] \<and> running s = [] \<and>
        next_promise s = 4 \<and> distinct (map fst (settled s)) \<and> fst ` set (settled s) = {..<4}" by simp
  have g: "fresh_ids small_config init pending_and_due"
    by (simp add: pending_and_due_def sched_defs init_def small_config_def)
  have "run small_config init pending_and_due \<noteq> None"
    by (simp add: pending_and_due_def sched_defs init_def small_config_def)
  then obtain u where u: "run small_config init pending_and_due = Some u" by blast
  have w: "map_option (map promise \<circ> queue) (run small_config init pending_and_due) = Some [2, 3]"
    "map_option running (run small_config init pending_and_due) = Some [0]"
    "map_option (map timeout \<circ> queue) (run small_config init pending_and_due) = Some [3, 4]"
    "map_option (map handle \<circ> timers) (run small_config init pending_and_due) = Some [3, 4]"
    "map_option (map due \<circ> timers) (run small_config init pending_and_due) = Some [10, 10]"
    "map_option clock (run small_config init pending_and_due) = Some 10"
    by (simp_all add: pending_and_due_def sched_defs init_def small_config_def)
  with u obtain r2 r3 where q: "queue u = [r2, r3]" "promise r2 = 2" "timeout r2 = 3" by auto
  from w u have ru: "running u = [0]" and du: "\<forall>t\<in>set (timers u). due t = 10"
    and cu: "clock u = 10" by (auto dest!: arg_cong[where f=set])
  note th = settled_exactly_once[OF u g, THEN conjunct2, THEN conjunct2, THEN conjunct2,
      THEN conjunct2]
  from th q obtain t where d: "t \<in> set (timers u)"
    "due t \<le> clock u \<longrightarrow> (\<exists>s'. step small_config (Timeout (timeout r2)) u = Some s' \<and>
          settled s' = settled u @ [(promise r2, Rejected RequestTimeout)])"
    by fastforce
  from d(1) du have "due t = 10" by blast
  with d(2) cu q have b1: "\<exists>s'. step small_config (Timeout 3) u = Some s' \<and>
          settled s' = settled u @ [(2, Rejected RequestTimeout)]" by simp
  from th ru have b2: "\<exists>s'. step small_config (Complete 0 (Inl (ThrownExn ''network''))) u = Some s' \<and>
          settled s' = settled u @ [(0, Rejected (OperationFailure (ThrownExn ''network'')))]"
    by fastforce
  from th q have b3: "int (MAX_CONCURRENT small_config) \<le> processing u + int (callbacks u)"
    by simp
  from f g v(1) a w(1,2) u b1 b2 b3 show ?thesis by blast
qed

subsection \<open>The concurrency ceiling\<close>

text \<open>
  C2. At every point of every run the in-flight counter \<open>processing\<close> lies between 0 and
  \<open>MAX_CONCURRENT\<close>, and it counts the operations that execute: those started that have not
  yet returned or thrown, each once. A run is any sequence of events, so this holds for any
  number of submissions. While no submission collides, the operations that execute are
  also those started whose promise is not settled.
\<close>

theorem processing_within_limit:
  assumes "run cfg init (es @ es') = Some s'"
  shows "\<exists>s. run cfg init es = Some s \<and>
           0 \<le> processing s \<and> processing s \<le> int (MAX_CONCURRENT cfg) \<and>
           processing s = int (length (running s)) \<and> distinct (running s) \<and>
           set (running s) =
             promise ` set (started s) - fst ` {p \<in> set (settled s). ran (snd p)} \<and>
           (fresh_ids cfg init es \<longrightarrow>
              set (running s) = promise ` set (started s) - fst ` set (settled s))"
proof -
  from assms obtain s where s: "run cfg init es = Some s"
    by (auto simp: run_append split: option.splits)
  then have i: "inv cfg s" using inv_run[OF inv_init] by blast
  then have pr: "inv_proc cfg s" and ps: "inv_promises s" by (simp_all add: inv_def)
  have a: "set (running s) =
             promise ` set (started s) - fst ` {p \<in> set (settled s). ran (snd p)}"
    using i by (rule running_started)
  have b: "fresh_ids cfg init es \<longrightarrow>
              set (running s) = promise ` set (started s) - fst ` set (settled s)"
  proof
    assume "fresh_ids cfg init es"
    with s have "inv_unique s" by (rule reachable_unique)
    then have "set (running s) \<inter> fst ` set (settled s) = {}" by (auto simp: inv_unique_def)
    with a show "set (running s) = promise ` set (started s) - fst ` set (settled s)" by auto
  qed
  from pr ps have "0 \<le> processing s \<and> processing s \<le> int (MAX_CONCURRENT cfg) \<and>
           processing s = int (length (running s)) \<and> distinct (running s)"
    by (simp add: inv_proc_def inv_promises_def)
  with s a b show ?thesis by blast
qed

theorem processing_within_limit_witness:
  "run source_config init (five_requests @ [Complete 1 (Inr VNull), Callback]) \<noteq> None \<and>
   fresh_ids source_config init five_requests \<and>
   (\<exists>s. run source_config init five_requests = Some s \<and> processing s = 3 \<and>
        processing s \<le> int (MAX_CONCURRENT source_config) \<and> running s = [0, 1, 2] \<and>
        set (running s) = promise ` set (started s) - fst ` set (settled s))"
proof -
  have r: "run source_config init (five_requests @ [Complete 1 (Inr VNull), Callback]) \<noteq> None"
    by (simp add: five_requests_def sched_defs init_def source_config_def)
  then obtain s' where "run source_config init (five_requests @ [Complete 1 (Inr VNull), Callback]) = Some s'"
    by blast
  moreover have f: "fresh_ids source_config init five_requests"
    by (simp add: five_requests_def sched_defs init_def source_config_def)
  ultimately obtain s where
    "run source_config init five_requests = Some s" "processing s \<le> int (MAX_CONCURRENT source_config)"
    "set (running s) = promise ` set (started s) - fst ` set (settled s)"
    using processing_within_limit[of source_config five_requests "[Complete 1 (Inr VNull), Callback]" s']
    by blast
  moreover have "map_option processing (run source_config init five_requests) = Some 3"
     "map_option running (run source_config init five_requests) = Some [0, 1, 2]"
    by (simp_all add: five_requests_def sched_defs init_def source_config_def)
  ultimately show ?thesis using r f by auto
qed

subsection \<open>The queue bound and the eviction of the oldest request\<close>



subsection \<open>The timeout bounds the wait in the queue only\<close>

text \<open>
  C4 as stated does not hold, for the reason C1 does not: the timeout callback removes the
  first pending request that has the id of its own. In the run \<open>same_id_fired\<close> two pending
  requests have the same id. After \<open>REQUEST_TIMEOUT\<close> the timer of promise 1 fires: promise 1
  is rejected with the timeout error, but its request is still in the queue, and the
  request of promise 2, which has waited as long, is removed and its timer disarmed without
  its promise being rejected. In \<open>same_id_drained\<close> the operation of promise 1 is then
  admitted: a started operation whose promise was rejected with the timeout error.
\<close>

theorem timeout_bounds_queue_wait_only_counterexample:
  "map_option (map promise \<circ> queue) (run small_config init same_id_fired) = Some [1] \<and>
   map_option settled (run small_config init same_id_fired) = Some [(1, Rejected RequestTimeout)] \<and>
   map_option timers (run small_config init same_id_fired) = Some [] \<and>
   map_option clock (run small_config init same_id_fired) = Some (REQUEST_TIMEOUT small_config) \<and>
   map_option (map promise \<circ> started) (run small_config init same_id_drained) = Some [0, 1] \<and>
   map_option (filter (\<lambda>p. fst p = 1) \<circ> settled) (run small_config init same_id_drained) =
     Some [(1, Rejected RequestTimeout), (1, Resolved VNull)] \<and>
   map_option (filter (\<lambda>p. fst p = 2) \<circ> settled) (run small_config init same_id_drained) = Some []"
  by (simp add: same_id_drained_def same_id_fired_def sched_defs init_def small_config_def)

text \<open>
  C4, as the code has it: in a run in which no submission composes the id of a request that
  is pending at that moment. The timer armed by \<open>enqueue\<close> is due \<open>REQUEST_TIMEOUT\<close> after the
  submission and stays armed exactly as long as the request is pending. \<open>processQueue\<close>
  disarms it when it starts the operation, so a started operation is never rejected with
  the timeout error, however much time passes. An armed timer is due within
  \<open>REQUEST_TIMEOUT\<close> from now and cannot fire before it is due; when it fires, its request is
  removed from the queue, its promise is rejected with the timeout error, and its operation
  has not been started.
\<close>

theorem timeout_bounds_queue_wait_only:
  assumes "run cfg init evs = Some s" and "fresh_ids cfg init evs"
  shows "\<lparr>handle = next_handle s, timer_id = (ty, now, digits), timer_promise = next_promise s,
           due = clock s + REQUEST_TIMEOUT cfg\<rparr>
           \<in> set (timers (arm_and_insert cfg ty now digits ts (evict cfg s))) \<and>
         (\<forall>r\<in>set (queue s). \<exists>t\<in>set (timers s).
            handle t = timeout r \<and> timer_id t = req_id r \<and> timer_promise t = promise r) \<and>
         (\<forall>t\<in>set (timers s). \<exists>r\<in>set (queue s).
            timeout r = handle t \<and> req_id r = timer_id t \<and> promise r = timer_promise t) \<and>
         (\<forall>r rest. queue s = r # rest \<and> processing s < int (MAX_CONCURRENT cfg) \<longrightarrow>
            started (processQueue cfg s) = started s @ [r] \<and>
            timers (processQueue cfg s) = filter (\<lambda>t. handle t \<noteq> timeout r) (timers s) \<and>
            (\<forall>t\<in>set (timers (processQueue cfg s)).
               timer_promise t \<noteq> promise r \<and> timer_id t \<noteq> req_id r)) \<and>
         (\<forall>r\<in>set (started s).
            (promise r, Rejected RequestTimeout) \<notin> set (settled s) \<and>
            (\<forall>t\<in>set (timers s). timer_promise t \<noteq> promise r)) \<and>
         (\<forall>t\<in>set (timers s).
            due t \<le> clock s + REQUEST_TIMEOUT cfg \<and>
            (clock s < due t \<longrightarrow> step cfg (Timeout (handle t)) s = None) \<and>
            (due t \<le> clock s \<longrightarrow>
               (\<exists>s'. step cfg (Timeout (handle t)) s = Some s' \<and>
                     queue s' = filter (\<lambda>x. req_id x \<noteq> timer_id t) (queue s) \<and>
                     timer_id t \<notin> req_id ` set (queue s') \<and>
                     timer_promise t \<notin> promise ` set (queue s') \<and>
                     settled s' = settled s @ [(timer_promise t, Rejected RequestTimeout)] \<and>
                     timer_promise t \<notin> promise ` set (started s'))))"
proof -
  have i: "inv cfg s" using assms(1) by (rule reachable_inv)
  have un: "inv_unique s" using assms by (rule reachable_unique)
  from i have tm: "inv_timers s" by (simp add: inv_def)
  have 1: "\<lparr>handle = next_handle s, timer_id = (ty, now, digits), timer_promise = next_promise s,
           due = clock s + REQUEST_TIMEOUT cfg\<rparr>
           \<in> set (timers (arm_and_insert cfg ty now digits ts (evict cfg s)))"
    by (simp add: arm_and_insert_eq evict_fields)
  have 2: "\<forall>r\<in>set (queue s). \<exists>t\<in>set (timers s).
            handle t = timeout r \<and> timer_id t = req_id r \<and> timer_promise t = promise r"
    using timer_of_request[OF un] by blast
  have 3: "\<forall>t\<in>set (timers s). \<exists>r\<in>set (queue s).
            timeout r = handle t \<and> req_id r = timer_id t \<and> promise r = timer_promise t"
    using request_of_timer[OF tm] by blast
  have 4: "\<forall>r rest. queue s = r # rest \<and> processing s < int (MAX_CONCURRENT cfg) \<longrightarrow>
            started (processQueue cfg s) = started s @ [r] \<and>
            timers (processQueue cfg s) = filter (\<lambda>t. handle t \<noteq> timeout r) (timers s) \<and>
            (\<forall>t\<in>set (timers (processQueue cfg s)).
               timer_promise t \<noteq> promise r \<and> timer_id t \<noteq> req_id r)"
  proof (intro allI impI)
    fix r rest assume a: "queue s = r # rest \<and> processing s < int (MAX_CONCURRENT cfg)"
    then have p: "started (processQueue cfg s) = started s @ [r]"
      "timers (processQueue cfg s) = filter (\<lambda>t. handle t \<noteq> timeout r) (timers s)"
      "queue (processQueue cfg s) = rest"
      by (simp_all add: processQueue_eq[OF tm])
    have i': "inv cfg (processQueue cfg s)" using i by (rule inv_processQueue)
    from started_not_pending[OF this, of r] p(1)
    have x: "\<forall>t\<in>set (timers (processQueue cfg s)). timer_promise t \<noteq> promise r" by simp
    from un a have nid: "req_id r \<notin> req_id ` set rest" by (simp add: inv_unique_def)
    have y: "\<forall>t\<in>set (timers (processQueue cfg s)). timer_id t \<noteq> req_id r"
    proof
      fix t assume "t \<in> set (timers (processQueue cfg s))"
      with request_of_timer[of "processQueue cfg s" t] i'
      obtain x where "x \<in> set (queue (processQueue cfg s))" "req_id x = timer_id t"
        by (auto simp: inv_def)
      with p(3) have "timer_id t \<in> req_id ` set rest" by force
      with nid show "timer_id t \<noteq> req_id r" by metis
    qed
    from p x y show "started (processQueue cfg s) = started s @ [r] \<and>
            timers (processQueue cfg s) = filter (\<lambda>t. handle t \<noteq> timeout r) (timers s) \<and>
            (\<forall>t\<in>set (timers (processQueue cfg s)).
               timer_promise t \<noteq> promise r \<and> timer_id t \<noteq> req_id r)" by simp
  qed
  have 5: "\<forall>r\<in>set (started s).
            (promise r, Rejected RequestTimeout) \<notin> set (settled s) \<and>
            (\<forall>t\<in>set (timers s). timer_promise t \<noteq> promise r)"
  proof
    fix r assume r: "r \<in> set (started s)"
    have "(promise r, Rejected RequestTimeout) \<notin> set (settled s)"
      using started_iff_ran[OF i un, of "promise r" "Rejected RequestTimeout"] r by auto
    with started_not_pending[OF i r]
    show "(promise r, Rejected RequestTimeout) \<notin> set (settled s) \<and>
            (\<forall>t\<in>set (timers s). timer_promise t \<noteq> promise r)" by simp
  qed
  have 6: "\<forall>t\<in>set (timers s).
            due t \<le> clock s + REQUEST_TIMEOUT cfg \<and>
            (clock s < due t \<longrightarrow> step cfg (Timeout (handle t)) s = None) \<and>
            (due t \<le> clock s \<longrightarrow>
               (\<exists>s'. step cfg (Timeout (handle t)) s = Some s' \<and>
                     queue s' = filter (\<lambda>x. req_id x \<noteq> timer_id t) (queue s) \<and>
                     timer_id t \<notin> req_id ` set (queue s') \<and>
                     timer_promise t \<notin> promise ` set (queue s') \<and>
                     settled s' = settled s @ [(timer_promise t, Rejected RequestTimeout)] \<and>
                     timer_promise t \<notin> promise ` set (started s')))"
  proof (intro ballI conjI impI)
    fix t assume t: "t \<in> set (timers s)"
    with reachable_due[OF assms(1)] show "due t \<le> clock s + REQUEST_TIMEOUT cfg"
      by (simp add: inv_due_def)
  next
    fix t assume t: "t \<in> set (timers s)" and "clock s < due t"
    then show "step cfg (Timeout (handle t)) s = None" by (simp add: step_Timeout_armed[OF i t])
  next
    fix t assume t: "t \<in> set (timers s)" and d: "due t \<le> clock s"
    let ?s' = "s\<lparr>timers := filter (\<lambda>x. handle x \<noteq> handle t) (timers s),
                 queue := filter (\<lambda>x. promise x \<noteq> timer_promise t) (queue s),
                 settled := settled s @ [(timer_promise t, Rejected RequestTimeout)]\<rparr>"
    have st: "step cfg (Timeout (handle t)) s = Some ?s'" using d by (simp add: step_Timeout[OF i un t])
    have i': "inv cfg ?s'" using inv_step[OF i st] .
    have un': "inv_unique ?s'" using unique_step[OF i un _ st] by simp
    have "(timer_promise t, Rejected RequestTimeout) \<in> set (settled ?s')" by simp
    from started_iff_ran[OF i' un' this] have ns: "timer_promise t \<notin> promise ` set (started ?s')"
      by simp
    obtain r where "filter (\<lambda>x. promise x \<noteq> timer_promise t) (queue s) =
       filter (\<lambda>x. req_id x \<noteq> timer_id t) (queue s)"
      by (rule own_request[OF i un t])
    then have qf: "queue ?s' = filter (\<lambda>x. req_id x \<noteq> timer_id t) (queue s)"
      "queue ?s' = filter (\<lambda>x. promise x \<noteq> timer_promise t) (queue s)" by simp_all
    have "timer_id t \<notin> req_id ` set (queue ?s')" unfolding qf(1) by auto
    moreover have "timer_promise t \<notin> promise ` set (queue ?s')" unfolding qf(2) by auto
    ultimately show "\<exists>s'. step cfg (Timeout (handle t)) s = Some s' \<and>
                     queue s' = filter (\<lambda>x. req_id x \<noteq> timer_id t) (queue s) \<and>
                     timer_id t \<notin> req_id ` set (queue s') \<and>
                     timer_promise t \<notin> promise ` set (queue s') \<and>
                     settled s' = settled s @ [(timer_promise t, Rejected RequestTimeout)] \<and>
                     timer_promise t \<notin> promise ` set (started s')"
      using st ns qf(1) by (intro exI[of _ ?s']) simp
  qed
  from 1 2 3 4 5 6 show ?thesis by blast
qed

theorem timeout_bounds_queue_wait_only_witness:
  "fresh_ids small_config init wait_then_free \<and>
   map_option (map promise \<circ> queue) (run small_config init wait_then_free) = Some [1] \<and>
   map_option timers (run small_config init wait_then_free) =
     Some [\<lparr>handle = 2, timer_id = (Unlike, 1, ''b''), timer_promise = 1, due = 10\<rparr>] \<and>
   map_option clock (run small_config init wait_then_free) = Some 10 \<and>
   map_option (map promise \<circ> started) (run small_config init wait_then_free) = Some [0] \<and>
   (\<exists>s. run small_config init wait_then_free = Some s \<and>
        processing s < int (MAX_CONCURRENT small_config) \<and>
        timers (processQueue small_config s) = [] \<and>
        (\<exists>s'. step small_config (Timeout 2) s = Some s' \<and>
              settled s' = settled s @ [(1, Rejected RequestTimeout)] \<and> queue s' = [])) \<and>
   fresh_ids small_config init waiting \<and>
   map_option timers (run small_config init waiting) =
     Some [\<lparr>handle = 2, timer_id = (Unlike, 1, ''b''), timer_promise = 1, due = 10\<rparr>] \<and>
   map_option clock (run small_config init waiting) = Some 0 \<and>
   (\<exists>s. run small_config init waiting = Some s \<and> step small_config (Timeout 2) s = None)"
proof -
  let ?t = "\<lparr>handle = 2, timer_id = (Unlike, 1, ''b''), timer_promise = 1, due = 10\<rparr>"
  have f: "fresh_ids small_config init wait_then_free"
    by (simp add: wait_then_free_def sched_defs init_def small_config_def)
  have r: "run small_config init wait_then_free \<noteq> None"
    by (simp add: wait_then_free_def sched_defs init_def small_config_def)
  then obtain s where s: "run small_config init wait_then_free = Some s" by blast
  have v: "map_option (map promise \<circ> queue) (run small_config init wait_then_free) = Some [1]"
    "map_option timers (run small_config init wait_then_free) = Some [?t]"
    "map_option clock (run small_config init wait_then_free) = Some 10"
    "map_option (map promise \<circ> started) (run small_config init wait_then_free) = Some [0]"
    "map_option processing (run small_config init wait_then_free) = Some 0"
    "map_option (map req_id \<circ> queue) (run small_config init wait_then_free) = Some [(Unlike, 1, ''b'')]"
    by (simp_all add: wait_then_free_def sched_defs init_def small_config_def)
  from v s obtain r where q: "queue s = [r]" "promise r = 1" "req_id r = (Unlike, 1, ''b'')" by auto
  from v s have t: "timers s = [?t]" and c: "clock s = 10" and p: "processing s = 0" by auto
  note th = timeout_bounds_queue_wait_only[OF s f, of Like 0 "[]" 0]
  note c2 = th[THEN conjunct2, THEN conjunct1]
  note c4 = th[THEN conjunct2, THEN conjunct2, THEN conjunct2, THEN conjunct1]
  note c6 = th[THEN conjunct2, THEN conjunct2, THEN conjunct2, THEN conjunct2, THEN conjunct2]
  from c2 t q have "timeout r = 2" by simp
  from c4[rule_format, of r "[]"] q p
  have "timers (processQueue small_config s) = filter (\<lambda>t. handle t \<noteq> timeout r) (timers s)"
    by (simp add: small_config_def)
  with t \<open>timeout r = 2\<close> have a: "timers (processQueue small_config s) = []" by simp
  have "?t \<in> set (timers s)" by (simp add: t)
  from c6[rule_format, OF this] c
  have "\<exists>s'. step small_config (Timeout (handle ?t)) s = Some s' \<and>
      queue s' = filter (\<lambda>x. req_id x \<noteq> timer_id ?t) (queue s) \<and>
      settled s' = settled s @ [(timer_promise ?t, Rejected RequestTimeout)]"
    by auto
  then obtain s' where s': "step small_config (Timeout 2) s = Some s'"
    "queue s' = filter (\<lambda>x. req_id x \<noteq> (Unlike, 1, ''b'')) (queue s)"
    "settled s' = settled s @ [(1, Rejected RequestTimeout)]"
    by auto
  with q have "queue s' = []" by simp
  with s a p s' have A: "\<exists>s. run small_config init wait_then_free = Some s \<and>
        processing s < int (MAX_CONCURRENT small_config) \<and>
        timers (processQueue small_config s) = [] \<and>
        (\<exists>s'. step small_config (Timeout 2) s = Some s' \<and>
              settled s' = settled s @ [(1, Rejected RequestTimeout)] \<and> queue s' = [])"
    by (auto simp: small_config_def)
  have g: "fresh_ids small_config init waiting"
    by (simp add: waiting_def sched_defs init_def small_config_def)
  have "run small_config init waiting \<noteq> None"
    by (simp add: waiting_def sched_defs init_def small_config_def)
  then obtain u where u: "run small_config init waiting = Some u" by blast
  have w: "map_option timers (run small_config init waiting) = Some [?t]"
    "map_option clock (run small_config init waiting) = Some 0"
    by (simp_all add: waiting_def sched_defs init_def small_config_def)
  with u have tu: "?t \<in> set (timers u)" and cu: "clock u < due ?t" by auto
  note d6 = timeout_bounds_queue_wait_only[OF u g, of Like 0 "[]" 0, THEN conjunct2,
      THEN conjunct2, THEN conjunct2, THEN conjunct2, THEN conjunct2]
  from d6[rule_format, OF tu] cu
  have "step small_config (Timeout (handle ?t)) u = None"
    by blast
  with u have B: "\<exists>s. run small_config init waiting = Some s \<and> step small_config (Timeout 2) s = None"
    by simp
  from f g v(1-4) A w B show ?thesis by blast
qed

subsection \<open>The order of admission\<close>

text \<open>
  C5 as stated does not hold. The timestamp of a request is what \<open>Date.now()\<close> returns, and
  the wall clock can be set back between two submissions. A request submitted at 5 with a
  free slot starts at once; the next, stamped 3, starts after it: the start order is not
  ascending in the timestamps.
\<close>

theorem start_order_counterexample:
  "map_option (map timestamp \<circ> started) (run source_config init retreating_clock) = Some [5, 3] \<and>
   \<not> sorted [5, 3 :: int]"
  by (simp add: retreating_clock_def sched_defs init_def source_config_def)

text \<open>
  C5, as the code has it. \<open>processQueue\<close> always takes the head of the pending queue, and
  the head has the least timestamp of all pending requests, the earliest inserted among
  equal timestamps. Two started operations with the same timestamp have started in the
  order of their insertion. When the timestamps read at successive submissions do not
  decrease, the operations start in ascending order of their timestamps.
\<close>

theorem start_order:
  assumes "run cfg init evs = Some s"
  shows "(\<forall>r rest. queue s = r # rest \<and> processing s < int (MAX_CONCURRENT cfg) \<longrightarrow>
            started (processQueue cfg s) = started s @ [r] \<and> queue (processQueue cfg s) = rest) \<and>
         (\<forall>r rest. queue s = r # rest \<longrightarrow>
            (\<forall>x\<in>set rest. timestamp r < timestamp x \<or>
                            (timestamp r = timestamp x \<and> promise r < promise x))) \<and>
         (\<forall>i j. i < j \<and> j < length (started s) \<and>
                timestamp (started s ! i) = timestamp (started s ! j) \<longrightarrow>
                promise (started s ! i) < promise (started s ! j)) \<and>
         (sorted (stamps evs) \<longrightarrow> sorted (map timestamp (started s)))"
proof -
  have i: "inv cfg s" using assms by (rule reachable_inv)
  then have tm: "inv_timers s" and so: "inv_sorted s" and st: "inv_started s" by (simp_all add: inv_def)
  have 1: "\<forall>r rest. queue s = r # rest \<and> processing s < int (MAX_CONCURRENT cfg) \<longrightarrow>
            started (processQueue cfg s) = started s @ [r] \<and> queue (processQueue cfg s) = rest"
    by (simp add: processQueue_eq[OF tm])
  have 2: "\<forall>r rest. queue s = r # rest \<longrightarrow>
            (\<forall>x\<in>set rest. timestamp r < timestamp x \<or>
                            (timestamp r = timestamp x \<and> promise r < promise x))"
    using so by (auto simp: inv_sorted_def before_def)
  have 3: "\<forall>i j. i < j \<and> j < length (started s) \<and>
                timestamp (started s ! i) = timestamp (started s ! j) \<longrightarrow>
                promise (started s ! i) < promise (started s ! j)"
  proof (intro allI impI)
    fix i j assume a: "i < j \<and> j < length (started s) \<and>
                timestamp (started s ! i) = timestamp (started s ! j)"
    from reachable_order[OF assms] have "sorted_wrt no_overtake (started s)"
      by (simp add: inv_order_def sorted_wrt_append)
    with a have "no_overtake (started s ! i) (started s ! j)"
      by (simp add: sorted_wrt_iff_nth_less)
    with a have "promise (started s ! i) \<le> promise (started s ! j)"
      by (simp add: no_overtake_def)
    moreover from st have "distinct (map promise (started s))" by (simp add: inv_started_def)
    with a have "promise (started s ! i) \<noteq> promise (started s ! j)"
      by (simp add: distinct_conv_nth)
    ultimately show "promise (started s ! i) < promise (started s ! j)" by simp
  qed
  have 4: "sorted (stamps evs) \<longrightarrow> sorted (map timestamp (started s))"
  proof
    assume "sorted (stamps evs)"
    then have "inv_mono init (stamps evs)" by (simp add: inv_mono_def init_def)
    from mono_run[OF inv_init this assms] show "sorted (map timestamp (started s))"
      by (simp add: inv_mono_def sorted_append)
  qed
  from 1 2 3 4 show ?thesis by blast
qed

theorem start_order_witness:
  "sorted (stamps submit_ABC) \<and>
   map_option (map promise \<circ> started) (run one_at_a_time init submit_ABC) = Some [0, 1, 2] \<and>
   map_option (map timestamp \<circ> started) (run one_at_a_time init submit_ABC) = Some [0, 1, 2] \<and>
   (\<exists>s. run one_at_a_time init submit_ABC = Some s \<and> sorted (map timestamp (started s))) \<and>
   map_option (map promise \<circ> queue) (run one_at_a_time init same_stamp) = Some [1, 2] \<and>
   map_option (map timestamp \<circ> queue) (run one_at_a_time init same_stamp) = Some [1, 1] \<and>
   (\<exists>s. run one_at_a_time init same_stamp = Some s \<and>
        processing s < int (MAX_CONCURRENT one_at_a_time) \<and>
        map promise (started (processQueue one_at_a_time s)) = [0, 1]) \<and>
   map_option (map timestamp \<circ> started) (run one_at_a_time init same_stamp_started) = Some [0, 1, 1] \<and>
   (\<exists>s. run one_at_a_time init same_stamp_started = Some s \<and>
        promise (started s ! 1) < promise (started s ! 2))"
proof -
  have r: "run one_at_a_time init submit_ABC \<noteq> None"
    by (simp add: submit_ABC_def sched_defs init_def one_at_a_time_def)
  then obtain s where s: "run one_at_a_time init submit_ABC = Some s" by blast
  have m: "sorted (stamps submit_ABC)" by (simp add: submit_ABC_def)
  from start_order[OF s] m have "sorted (map timestamp (started s))" by blast
  with s have A: "\<exists>s. run one_at_a_time init submit_ABC = Some s \<and> sorted (map timestamp (started s))"
    by blast
  have v: "map_option (map promise \<circ> started) (run one_at_a_time init submit_ABC) = Some [0, 1, 2]"
    "map_option (map timestamp \<circ> started) (run one_at_a_time init submit_ABC) = Some [0, 1, 2]"
    by (simp_all add: submit_ABC_def sched_defs init_def one_at_a_time_def)
  have "run one_at_a_time init same_stamp \<noteq> None"
    by (simp add: same_stamp_def sched_defs init_def one_at_a_time_def)
  then obtain u where u: "run one_at_a_time init same_stamp = Some u" by blast
  have w: "map_option (map promise \<circ> queue) (run one_at_a_time init same_stamp) = Some [1, 2]"
    "map_option (map timestamp \<circ> queue) (run one_at_a_time init same_stamp) = Some [1, 1]"
    "map_option processing (run one_at_a_time init same_stamp) = Some 0"
    "map_option (map promise \<circ> started) (run one_at_a_time init same_stamp) = Some [0]"
    by (simp_all add: same_stamp_def sched_defs init_def one_at_a_time_def)
  with u obtain r1 r2 where q: "queue u = [r1, r2]" "promise r1 = 1" by auto
  from w u have pu: "processing u = 0" and su: "map promise (started u) = [0]" by auto
  from start_order[OF u] q pu have "started (processQueue one_at_a_time u) = started u @ [r1]"
    by (simp add: one_at_a_time_def)
  with su q pu u have B: "\<exists>s. run one_at_a_time init same_stamp = Some s \<and>
        processing s < int (MAX_CONCURRENT one_at_a_time) \<and>
        map promise (started (processQueue one_at_a_time s)) = [0, 1]"
    by (simp add: one_at_a_time_def)
  have "run one_at_a_time init same_stamp_started \<noteq> None"
    by (simp add: same_stamp_started_def same_stamp_def sched_defs init_def one_at_a_time_def)
  then obtain x where x: "run one_at_a_time init same_stamp_started = Some x" by blast
  have y: "map_option (map timestamp \<circ> started) (run one_at_a_time init same_stamp_started) = Some [0, 1, 1]"
    by (simp add: same_stamp_started_def same_stamp_def sched_defs init_def one_at_a_time_def)
  with x have ts: "map timestamp (started x) = [0, 1, 1]" by simp
  then have l: "length (started x) = 3" by (auto dest: arg_cong[where f=length])
  from ts l have "timestamp (started x ! 1) = timestamp (started x ! 2)"
    by (metis (no_types, lifting) One_nat_def length_map list.map nth_Cons_0 nth_Cons_Suc nth_map
        numeral_2_eq_2 numeral_3_eq_3 lessI less_SucI)
  with start_order[OF x] l have "promise (started x ! 1) < promise (started x ! 2)"
    by (simp add: numeral_3_eq_3)
  with x have C: "\<exists>s. run one_at_a_time init same_stamp_started = Some s \<and>
        promise (started s ! 1) < promise (started s ! 2)" by blast
  from m v A w(1,2) B y C show ?thesis by blast
qed

subsection \<open>The status snapshot\<close>

text \<open>
  C6 as stated does not hold. The object returned by \<open>getStatus\<close> has no field \<open>inFlight\<close>:
  the in-flight count is under the key \<open>processing\<close>.
\<close>

theorem status_fields_counterexample:
  "map fst (fst (getStatus source_config init)) =
     [''queueSize'', ''processing'', ''maxConcurrent'', ''maxQueueSize''] \<and>
   map_of (fst (getStatus source_config init)) ''inFlight'' = None"
  by (simp add: getStatus_def)

text \<open>
  C6, as the code has it. \<open>getStatus\<close> (and \<open>getQueueStatus\<close>, which calls it on the global
  queue) returns exactly the fields \<open>queueSize\<close>, \<open>processing\<close>, \<open>maxConcurrent\<close> and
  \<open>maxQueueSize\<close>: the length of the pending queue, the in-flight counter, which is the
  number of awaited operations, and the two limits. The scheduler is left as it was.
\<close>

theorem status_snapshot:
  assumes "run cfg init evs = Some s"
  shows "snd (getStatus cfg s) = s \<and>
         map fst (fst (getStatus cfg s)) =
           [''queueSize'', ''processing'', ''maxConcurrent'', ''maxQueueSize''] \<and>
         map_of (fst (getStatus cfg s)) ''queueSize'' = Some (int (length (queue s))) \<and>
         map_of (fst (getStatus cfg s)) ''processing'' = Some (int (length (running s))) \<and>
         map_of (fst (getStatus cfg s)) ''processing'' = Some (processing s) \<and>
         map_of (fst (getStatus cfg s)) ''maxConcurrent'' = Some (int (MAX_CONCURRENT cfg)) \<and>
         map_of (fst (getStatus cfg s)) ''maxQueueSize'' = Some (int (MAX_QUEUE_SIZE cfg)) \<and>
         getQueueStatus s = getStatus source_config s"
proof -
  have "inv cfg s" using assms by (rule reachable_inv)
  then have "processing s = int (length (running s))" by (simp add: inv_def inv_proc_def)
  then show ?thesis by (simp add: getStatus_def getQueueStatus_def)
qed

theorem status_snapshot_witness:
  "run source_config init five_requests \<noteq> None \<and>
   map_option (fst \<circ> getQueueStatus) (run source_config init five_requests) =
     Some [(''queueSize'', 2), (''processing'', 3), (''maxConcurrent'', 3), (''maxQueueSize'', 1000)] \<and>
   (\<exists>s. run source_config init five_requests = Some s \<and> snd (getQueueStatus s) = s \<and>
        map_of (fst (getQueueStatus s)) ''processing'' = Some (int (length (running s))))"
proof -
  have r: "run source_config init five_requests \<noteq> None"
    by (simp add: five_requests_def sched_defs init_def source_config_def)
  then obtain s where s: "run source_config init five_requests = Some s" by blast
  from status_snapshot[OF s] have "snd (getQueueStatus s) = s \<and>
        map_of (fst (getQueueStatus s)) ''processing'' = Some (int (length (running s)))"
    by (simp add: getQueueStatus_def)
  moreover have "map_option (fst \<circ> getQueueStatus) (run source_config init five_requests) =
     Some [(''queueSize'', 2), (''processing'', 3), (''maxConcurrent'', 3), (''maxQueueSize'', 1000)]"
    by (simp add: five_requests_def sched_defs init_def source_config_def getQueueStatus_def getStatus_def)
  ultimately show ?thesis using s r by blast
qed

subsection \<open>The ordered insertion\<close>

text \<open>
  C7. \<open>enqueue\<close> puts the new request immediately before the first queued request whose
  timestamp is strictly greater, and at the end when there is none, and in every state
  of every run the pending queue is sorted by ascending timestamp.
\<close>

theorem queue_sorted_by_timestamp:
  assumes "run cfg init evs = Some s"
  shows "sorted (map timestamp (queue s)) \<and>
         sorted (map timestamp (queue (enqueue cfg ty now digits ts s))) \<and>
         enqueue cfg ty now digits ts s =
           processQueue cfg (arm_and_insert cfg ty now digits ts (evict cfg s)) \<and>
         queue (arm_and_insert cfg ty now digits ts (evict cfg s)) =
           insert_request
             \<lparr>req_id = (ty, now, digits), timestamp = ts, req_type = ty,
               promise = next_promise s, timeout = next_handle s\<rparr>
             (queue (evict cfg s)) \<and>
         (\<exists>xs ys. q = xs @ ys \<and> insert_request r q = xs @ r # ys \<and>
                  (\<forall>x\<in>set xs. timestamp x \<le> timestamp r) \<and>
                  (ys = [] \<or> timestamp r < timestamp (hd ys)))"
proof -
  have i: "inv cfg s" using assms by (rule reachable_inv)
  then have "inv_sorted s" by (simp add: inv_def)
  then have a: "sorted (map timestamp (queue s))" by (simp add: inv_sorted_def sorted_timestamps)
  from inv_enqueue[OF i] have "inv_sorted (enqueue cfg ty now digits ts s)" by (simp add: inv_def)
  then have b: "sorted (map timestamp (queue (enqueue cfg ty now digits ts s)))"
    by (simp add: inv_sorted_def sorted_timestamps)
  have c: "enqueue cfg ty now digits ts s =
             processQueue cfg (arm_and_insert cfg ty now digits ts (evict cfg s))"
    by (simp add: enqueue_def)
  have d: "queue (arm_and_insert cfg ty now digits ts (evict cfg s)) =
           insert_request
             \<lparr>req_id = (ty, now, digits), timestamp = ts, req_type = ty,
               promise = next_promise s, timeout = next_handle s\<rparr>
             (queue (evict cfg s))"
    by (simp add: arm_and_insert_eq evict_fields)
  obtain xs ys where "q = xs @ ys" "insert_request r q = xs @ r # ys"
    "\<forall>x\<in>set xs. \<not> timestamp r < timestamp x" "ys = [] \<or> timestamp r < timestamp (hd ys)"
    by (rule insert_request_split)
  then have f: "\<exists>xs ys. q = xs @ ys \<and> insert_request r q = xs @ r # ys \<and>
                  (\<forall>x\<in>set xs. timestamp x \<le> timestamp r) \<and>
                  (ys = [] \<or> timestamp r < timestamp (hd ys))"
    by (metis not_less)
  from a b c d f show ?thesis by blast
qed

theorem queue_sorted_by_timestamp_witness:
  "map_option (map timestamp \<circ> queue) (run source_config init out_of_order) = Some [3, 3, 4, 5] \<and>
   map_option (map promise \<circ> queue) (run source_config init out_of_order) = Some [4, 6, 5, 3] \<and>
   (\<exists>s. run source_config init out_of_order = Some s \<and> sorted (map timestamp (queue s)))"
proof -
  have r: "run source_config init out_of_order \<noteq> None"
    by (simp add: out_of_order_def sched_defs init_def source_config_def)
  then obtain s where s: "run source_config init out_of_order = Some s" by blast
  from queue_sorted_by_timestamp[OF s] have "sorted (map timestamp (queue s))" by blast
  moreover have "map_option (map timestamp \<circ> queue) (run source_config init out_of_order) = Some [3, 3, 4, 5]"
    "map_option (map promise \<circ> queue) (run source_config init out_of_order) = Some [4, 6, 5, 3]"
    by (simp_all add: out_of_order_def sched_defs init_def source_config_def)
  ultimately show ?thesis using s by blast
qed

subsection \<open>A burst of ten submissions\<close>




subsection \<open>Liking what is already liked\<close>

text \<open>
  C9. When a check reports the item liked, or \<open>add_like\<close> fails with a duplicate-key error,
  \<open>likeContentItem\<close> resolves with null (lemma \<open>already_liked_gives_null\<close>), and no new like
  should have been inserted. The code inserts one and still resolves with null on this
  backend: the pre-check and the first double-check report no like, \<open>add_like\<close> succeeds,
  the re-read of the item fails, and the double-check of the retry finds the like that
  this very call has inserted.
\<close>

theorem like_inserted_yet_null:
  "checkIfLiked (pre_check reread_fails) = Inr False \<and>
   internalLikeContentItem reread_fails =
     (Inr VNull,
      [CheckCall False, CheckCall False, AddLikeCall (RpcReply None),
       FetchCall (FetchReply VNull (Some (PgError ''PGRST116'' (Some ''no rows'')))),
       CheckCall True]) \<and>
   likes_inserted (snd (internalLikeContentItem reread_fails)) = 1 \<and>
   map_option settled
     (step source_config (Complete 0 (fst (internalLikeContentItem reread_fails)))
        (likeContentItem 0 ''a'' 0 init)) = Some [(0, Resolved VNull)]"
  by (simp add: internalLikeContentItem_def reread_fails_def checkIfLiked_def not_liked_def
      liked_def attempt_def maxRetries_def like_loop.simps[of _ 0] like_loop.simps[of _ "Suc 0"]
      likes_inserted_def likeContentItem_def sched_defs init_def source_config_def)

subsection \<open>\<open>checkIfLiked\<close> never rejects\<close>

text \<open>
  C10. \<open>checkIfLiked\<close> never rejects. It resolves with false when the query throws or
  returns an error; otherwise with true exactly when the reported count is positive, or,
  when no count is reported, when at least one row is returned.
\<close>

theorem checkIfLiked_total:
  "(\<exists>b. checkIfLiked reply = Inr b) \<and>
   (\<forall>e. reply = QueryThrows e \<longrightarrow> checkIfLiked reply = Inr False) \<and>
   (\<forall>e count rows. reply = QueryReply (Some e) count rows \<longrightarrow> checkIfLiked reply = Inr False) \<and>
   (\<forall>c rows. reply = QueryReply None (Some c) rows \<longrightarrow> checkIfLiked reply = Inr (0 < c)) \<and>
   (\<forall>rows. reply = QueryReply None None (Some rows) \<longrightarrow> checkIfLiked reply = Inr (0 < length rows)) \<and>
   (reply = QueryReply None None None \<longrightarrow> checkIfLiked reply = Inr False)"
  by (auto simp: checkIfLiked_def split: query_reply.splits option.splits)

theorem checkIfLiked_total_witness:
  "checkIfLiked (QueryThrows (ThrownExn ''fetch failed'')) = Inr False \<and>
   checkIfLiked (QueryReply (Some (PgError ''42P01'' None)) None None) = Inr False \<and>
   checkIfLiked (QueryReply None (Some 1) (Some [''id''])) = Inr True \<and>
   checkIfLiked (QueryReply None (Some 0) (Some [])) = Inr False \<and>
   checkIfLiked (QueryReply None None (Some [''id''])) = Inr True \<and>
   checkIfLiked (QueryReply None None None) = Inr False"
  using checkIfLiked_total[of "QueryThrows (ThrownExn ''fetch failed'')"]
    checkIfLiked_total[of "QueryReply (Some (PgError ''42P01'' None)) None None"]
    checkIfLiked_total[of "QueryReply None (Some 1) (Some [''id''])"]
    checkIfLiked_total[of "QueryReply None (Some 0) (Some [])"]
    checkIfLiked_total[of "QueryReply None None (Some [''id''])"]
    checkIfLiked_total[of "QueryReply None None None"]
  by simp

end
